theory Spec2Isabelle
  imports Main "HOL-Library.Char_ord" "HOL-Library.List_Lexorder" "HOL-Library.AList"
begin

section \<open>Data model of ServiceLocator.hpp\<close>

text \<open>
  A \<open>std::type_index\<close> is an opaque, comparable key of a C++ type; it is represented by the
  name of the type. The key of \<open>void\<close> is the interface type of every root Context.
\<close>

type_synonym type_index = string

definition typeid_void :: type_index where
  "typeid_void = ''void''"

text \<open>
  A \<open>sptr<IFace>\<close> handed out by the locator: \<open>nullptr\<close>, or the address of an object.
  Addresses are indices into the list of allocated objects of the state.
\<close>

datatype inst = Null | Ptr nat

text \<open>
  One rendered step of \<open>Context::getResolvePath\<close>: interface type, binding name and the
  concrete type once it has been set. The exceptions carry the path in this structured form;
  the demangled type names of the message text are a matter of the C++ ABI.
\<close>

type_synonym path = "(type_index \<times> string \<times> type_index option) list"

datatype error =
    DuplicateBinding type_index string
  | RecursiveResolve path
  | BindingIssue
  | UnableToResolve type_index path
  | BadFunctionCall
  | UserException
  | Dangling

text \<open>
  \<open>ServiceLocator::Context\<close>. The constructors of the class build two shapes only: a root
  Context (\<open>_root = this\<close>, \<open>_parent = nullptr\<close>, interface type \<open>void\<close>, name \<open>""\<close>) and a
  child, which takes \<open>_root\<close> and \<open>_sl\<close> from its parent. A root Context is an object with an
  identity (it owns \<open>_fnAfterResolveList\<close>), so it carries its address; \<open>this == _root\<close>
  holds exactly for the \<open>Root\<close> shape.
\<close>

datatype Context =
    Root nat nat
  | Child Context type_index string "type_index option"

fun root_of :: "Context \<Rightarrow> nat" where
  "root_of (Root r l) = r"
| "root_of (Child p t nm ct) = root_of p"

fun sl_of :: "Context \<Rightarrow> nat" where
  "sl_of (Root r l) = l"
| "sl_of (Child p t nm ct) = sl_of p"

fun getInterfaceTypeIndex :: "Context \<Rightarrow> type_index" where
  "getInterfaceTypeIndex (Root r l) = typeid_void"
| "getInterfaceTypeIndex (Child p t nm ct) = t"

fun getName :: "Context \<Rightarrow> string" where
  "getName (Root r l) = []"
| "getName (Child p t nm ct) = nm"

fun getParent :: "Context \<Rightarrow> Context option" where
  "getParent (Root r l) = None"
| "getParent (Child p t nm ct) = Some p"

fun is_root :: "Context \<Rightarrow> bool" where
  "is_root (Root r l) = True"
| "is_root (Child p t nm ct) = False"

fun concreteType :: "Context \<Rightarrow> type_index option" where
  "concreteType (Root r l) = None"
| "concreteType (Child p t nm ct) = ct"

text \<open>\<open>Context::setConcreteType\<close>: throws when the concrete type is already set.\<close>

fun setConcreteType :: "type_index \<Rightarrow> Context \<Rightarrow> error + Context" where
  "setConcreteType c (Child p t nm None) = Inr (Child p t nm (Some c))"
| "setConcreteType c (Child p t nm (Some c')) = Inl BindingIssue"
| "setConcreteType c (Root r l) = Inr (Root r l)"

text \<open>
  \<open>Context::getResolvePath\<close>: the steps from the first Context below the root down to this
  one; a Context whose parent is the root, and the root itself, render themselves only.
\<close>

fun getResolvePath :: "Context \<Rightarrow> path" where
  "getResolvePath (Root r l) = [(typeid_void, [], None)]"
| "getResolvePath (Child p t nm ct) =
     (case p of Root r l \<Rightarrow> [] | Child p' t' nm' ct' \<Rightarrow> getResolvePath p) @ [(t, nm, ct)]"

text \<open>
  \<open>Context::checkRecursiveResolve(resolveCtx, compareCtx)\<close>: compares the new Context with
  \<open>compareCtx\<close> and then with each of its ancestors up to the root.
\<close>

fun checkRecursiveResolve :: "Context \<Rightarrow> Context \<Rightarrow> error + unit" where
  "checkRecursiveResolve resolveCtx (Root r l) =
     (if getInterfaceTypeIndex resolveCtx = typeid_void \<and> getName resolveCtx = []
      then Inl (RecursiveResolve (getResolvePath resolveCtx))
      else Inr ())"
| "checkRecursiveResolve resolveCtx (Child p t nm ct) =
     (if getInterfaceTypeIndex resolveCtx = t \<and> getName resolveCtx = nm
      then Inl (RecursiveResolve (getResolvePath resolveCtx))
      else checkRecursiveResolve resolveCtx p)"

text \<open>The Context and its ancestors, nearest first: the chain the check walks.\<close>

fun ancestry :: "Context \<Rightarrow> Context list" where
  "ancestry (Root r l) = [Root r l]"
| "ancestry (Child p t nm ct) = Child p t nm ct # ancestry p"

section \<open>User code, bindings, locators and the state\<close>

text \<open>
  The code a client hands to the locator (constructors taking the Context, factory functions,
  after-resolve callbacks) is a list of statements, each a call the client code makes on a
  Context. Inside a constructor or factory the Context is the \<open>slc\<close> argument. Inside an
  after-resolve callback \<open>Given\<close> is the fresh root Context the callback receives, and
  \<open>Captured\<close> is the \<open>slc\<close> of the constructor that registered it, kept alive in the
  closure.
\<close>

datatype target = Given | Captured

datatype stmt =
    Resolve target type_index string
  | TryResolve target type_index string
  | ResolveAll target type_index
  | AfterResolve target "stmt list"
  | Throw

datatype callback = Callback Context "stmt list"

text \<open>
  The \<open>std::function\<close> values of a binding. \<open>_fnCreate\<close> is assigned by \<open>to_clause\<close> only
  and holds one of its lambdas, or nothing (\<open>Unset\<close>, the default-constructed function of a
  binding that was bound but not configured, or configured by \<open>toInstance\<close>). \<open>_fnGet\<close>
  holds a copy of the function in \<open>_fnCreate\<close>, the lambda of \<open>toInstance\<close>, or one of the
  two lambdas of \<open>asSingleton\<close>. The flag of \<open>ToFactory\<close> says that the client's factory
  returns \<open>nullptr\<close>.
\<close>

datatype creator =
    Unset
  | To type_index "stmt list"
  | ToNoDependancy type_index
  | ToFactory type_index "stmt list" bool
  | Alias type_index "string option"

datatype getter =
    Creator creator
  | Instance inst
  | SingletonFirst
  | SingletonCached

record shared_ptr_binding =
  iface :: type_index
  fnGet :: getter
  fnCreate :: creator
  singleton :: inst
  owner :: nat

text \<open>
  A \<open>ServiceLocator\<close>. \<open>_parent\<close> is set by the constructor and never changes, so the
  locator stores the chain it spans: the parent, its parent, and so on (empty for a locator
  made by \<open>create\<close>). \<open>_typed_locators\<close> maps an interface to its
  \<open>TypedServiceLocator::_bindings\<close>, a \<open>std::map\<close> from name to binding: an association
  list kept in ascending key order, which is the order a \<open>std::map\<close> is iterated in.
\<close>

record ServiceLocator =
  parents :: "nat list"
  typed_locators :: "(type_index \<times> (string \<times> nat) list) list"
  eagerBindings :: "nat list"
  root_context :: nat

text \<open>
  What client code can observe being run: a binding's construction function being entered,
  a callback being queued on a root Context, a callback of the list of a root being run with
  the Context it is given. The trace is written only; no operation reads it.
\<close>

datatype event =
    Construct nat
  | Enqueue nat callback
  | Run nat callback Context

record state =
  locators :: "ServiceLocator list"
  bindings :: "shared_ptr_binding list"
  queues :: "callback list option list"
  objects :: "type_index list"
  trace :: "event list"

definition init :: state where
  "init = \<lparr>locators = [], bindings = [], queues = [], objects = [], trace = []\<rparr>"

definition deref :: "'a list \<Rightarrow> nat \<Rightarrow> 'a option" where
  "deref xs i = (if i < length xs then Some (xs ! i) else None)"

subsection \<open>The name map of a TypedServiceLocator\<close>

text \<open>\<open>std::map::insert\<close>: keeps the keys ascending and leaves an existing key alone.\<close>

fun map_insert :: "string \<Rightarrow> nat \<Rightarrow> (string \<times> nat) list \<Rightarrow> (string \<times> nat) list" where
  "map_insert k v [] = [(k, v)]"
| "map_insert k v ((k', v') # m) =
     (if k < k' then (k, v) # (k', v') # m
      else if k = k' then (k', v') # m
      else (k', v') # map_insert k v m)"

text \<open>\<open>TypedServiceLocator::canResolve\<close>: \<open>_bindings.find(name) != _bindings.end()\<close>.\<close>

definition TypedServiceLocator_canResolve :: "(string \<times> nat) list \<Rightarrow> string \<Rightarrow> bool" where
  "TypedServiceLocator_canResolve m nm = (map_of m nm \<noteq> None)"

text \<open>\<open>ServiceLocator::getTypedServiceLocator(false)\<close>: \<open>None\<close> is \<open>nullptr\<close>.\<close>

definition getTypedServiceLocator :: "state \<Rightarrow> nat \<Rightarrow> type_index \<Rightarrow> (string \<times> nat) list option" where
  "getTypedServiceLocator s l t =
     (case deref (locators s) l of None \<Rightarrow> None | Some loc \<Rightarrow> map_of (typed_locators loc) t)"

subsection \<open>create, enter, bind and the configuration clauses\<close>

text \<open>\<open>new Context(slp)\<close>: a root Context object with no after-resolve list yet.\<close>

definition new_root :: "state \<Rightarrow> nat \<times> state" where
  "new_root s = (length (queues s), s\<lparr>queues := queues s @ [None]\<rparr>)"

definition create :: "state \<Rightarrow> nat \<times> state" where
  "create s =
     (let (r, s1) = new_root s in
      (length (locators s1),
       s1\<lparr>locators := locators s1 @
            [\<lparr>parents = [], typed_locators = [], eagerBindings = [], root_context = r\<rparr>]\<rparr>))"

definition enter :: "nat \<Rightarrow> state \<Rightarrow> (error + nat) \<times> state" where
  "enter l s =
     (case deref (locators s) l of
        None \<Rightarrow> (Inl Dangling, s)
      | Some loc \<Rightarrow>
          (let (r, s1) = new_root s in
           (Inr (length (locators s1)),
            s1\<lparr>locators := locators s1 @
                 [\<lparr>parents = l # parents loc, typed_locators = [], eagerBindings = [],
                   root_context = r\<rparr>]\<rparr>)))"

text \<open>
  \<open>ServiceLocator::bind<IFace>(named)\<close> with \<open>TypedServiceLocator::bind\<close>: the typed locator
  of this locator is created when missing; a name already in its own map throws; otherwise a
  new unconfigured binding is inserted. The result is the address of the binding, on which
  the clauses below act.
\<close>

definition bind :: "nat \<Rightarrow> type_index \<Rightarrow> string \<Rightarrow> state \<Rightarrow> (error + nat) \<times> state" where
  "bind l t nm s =
     (case deref (locators s) l of
        None \<Rightarrow> (Inl Dangling, s)
      | Some loc \<Rightarrow>
          (let m = (case map_of (typed_locators loc) t of None \<Rightarrow> [] | Some m \<Rightarrow> m) in
           if TypedServiceLocator_canResolve m nm
           then (Inl (DuplicateBinding t nm), s)
           else
             (let b = length (bindings s);
                  loc' = loc\<lparr>typed_locators :=
                           AList.update t (map_insert nm b m) (typed_locators loc)\<rparr>
              in (Inr b,
                  s\<lparr>locators := (locators s)[l := loc'],
                    bindings := bindings s @
                      [\<lparr>iface = t, fnGet = Creator Unset, fnCreate = Unset, singleton = Null,
                        owner = l\<rparr>]\<rparr>))))"

definition upd_binding :: "nat \<Rightarrow> (shared_ptr_binding \<Rightarrow> shared_ptr_binding) \<Rightarrow> state \<Rightarrow> state" where
  "upd_binding b f s = s\<lparr>bindings := (bindings s)[b := f (bindings s ! b)]\<rparr>"

text \<open>\<open>to_clause\<close>: \<open>toInstance\<close> sets \<open>_fnGet\<close> only, the others set both functions.\<close>

definition toInstance :: "nat \<Rightarrow> inst \<Rightarrow> state \<Rightarrow> state" where
  "toInstance b i s = upd_binding b (\<lambda>bd. bd\<lparr>fnGet := Instance i\<rparr>) s"

definition to :: "nat \<Rightarrow> creator \<Rightarrow> state \<Rightarrow> state" where
  "to b c s = upd_binding b (\<lambda>bd. bd\<lparr>fnGet := Creator c, fnCreate := c\<rparr>) s"

text \<open>\<open>as_clause\<close> and \<open>eagerly_clause\<close>.\<close>

definition asSingleton :: "nat \<Rightarrow> state \<Rightarrow> state" where
  "asSingleton b s = upd_binding b (\<lambda>bd. bd\<lparr>fnGet := SingletonFirst\<rparr>) s"

definition asTransient :: "nat \<Rightarrow> state \<Rightarrow> state" where
  "asTransient b s = upd_binding b (\<lambda>bd. bd\<lparr>fnGet := Creator (fnCreate bd)\<rparr>) s"

definition eagerly :: "nat \<Rightarrow> state \<Rightarrow> state" where
  "eagerly b s =
     (case deref (bindings s) b of
        None \<Rightarrow> s
      | Some bd \<Rightarrow>
          (case deref (locators s) (owner bd) of
             None \<Rightarrow> s
           | Some loc \<Rightarrow>
               s\<lparr>locators := (locators s)[owner bd := loc\<lparr>eagerBindings := eagerBindings loc @ [b]\<rparr>]\<rparr>))"

text \<open>The binding a locator holds in its own registry for an interface and a name.\<close>

definition own_binding :: "state \<Rightarrow> nat \<Rightarrow> type_index \<Rightarrow> string \<Rightarrow> nat option" where
  "own_binding s l t nm =
     (case getTypedServiceLocator s l t of None \<Rightarrow> None | Some m \<Rightarrow> map_of m nm)"

subsection \<open>canResolve\<close>

text \<open>
  \<open>ServiceLocator::_canResolve\<close> along the chain of a locator: without a typed locator for
  the interface the question goes to the parent (\<open>false\<close> at the top); with one, the answer
  is that of its own name map.
\<close>

fun ServiceLocator_canResolve :: "state \<Rightarrow> type_index \<Rightarrow> nat list \<Rightarrow> Context \<Rightarrow> bool" where
  "ServiceLocator_canResolve s t [] slc = False"
| "ServiceLocator_canResolve s t (l # ps) slc =
     (case getTypedServiceLocator s l t of
        None \<Rightarrow> (if ps = [] then False else ServiceLocator_canResolve s t ps slc)
      | Some nsl \<Rightarrow> TypedServiceLocator_canResolve nsl (getName slc))"

text \<open>\<open>_sl.lock()\<close> as the chain the locator spans: itself, then its ancestors.\<close>

definition lock :: "state \<Rightarrow> nat \<Rightarrow> nat list option" where
  "lock s l = (case deref (locators s) l of None \<Rightarrow> None | Some loc \<Rightarrow> Some (l # parents loc))"

text \<open>\<open>Context::canResolve<IFace>(named)\<close>.\<close>

definition Context_canResolve :: "state \<Rightarrow> Context \<Rightarrow> type_index \<Rightarrow> string \<Rightarrow> error + bool" where
  "Context_canResolve s this t nm =
     (case lock s (sl_of this) of
        None \<Rightarrow> Inl Dangling
      | Some chain \<Rightarrow> Inr (ServiceLocator_canResolve s t chain (Child this t nm None)))"

section \<open>Resolution\<close>

text \<open>
  Resolution runs client code, which resolves again, and the drain of an after-resolve list
  runs callbacks that may resolve and queue without bound. An operation returns \<open>None\<close>
  when it does not return, and otherwise its result (an exception is \<open>Inl\<close>) together with
  the state the call left behind.
\<close>

type_synonym 'a outcome = "(error + 'a) \<times> state"

text \<open>
  The calls through which the engine is re-entered: the three resolve operations that
  client code calls on a Context, and the next round of the drain loop. Every operation below takes them as its first argument; \<open>engine\<close>
  closes the recursion at the end of the section.
\<close>

record calls =
  call_resolve :: "Context \<Rightarrow> type_index \<Rightarrow> string \<Rightarrow> state \<Rightarrow> inst outcome option"
  call_tryResolve :: "Context \<Rightarrow> type_index \<Rightarrow> string \<Rightarrow> state \<Rightarrow> inst outcome option"
  call_resolveAll :: "Context \<Rightarrow> type_index \<Rightarrow> state \<Rightarrow> inst list outcome option"
  call_drain :: "nat \<Rightarrow> nat \<Rightarrow> nat \<Rightarrow> state \<Rightarrow> unit outcome option"

text \<open>\<open>Context::afterResolve(fnAfterResolve)\<close>: the callback goes to the list of the root.\<close>

definition Context_afterResolve :: "Context \<Rightarrow> callback \<Rightarrow> state \<Rightarrow> unit outcome" where
  "Context_afterResolve this cb s =
     (let r = root_of this in
      case deref (queues s) r of
        None \<Rightarrow> (Inl Dangling, s)
      | Some q \<Rightarrow>
          (Inr (), s\<lparr>queues := (queues s)[r := Some ((case q of None \<Rightarrow> [] | Some cs \<Rightarrow> cs) @ [cb])],
                    trace := trace s @ [Enqueue r cb]\<rparr>))"

definition pick :: "target \<Rightarrow> Context \<Rightarrow> Context \<Rightarrow> Context" where
  "pick tg given cap = (case tg of Given \<Rightarrow> given | Captured \<Rightarrow> cap)"

subsection \<open>Client code\<close>

fun exec :: "calls \<Rightarrow> stmt \<Rightarrow> Context \<Rightarrow> Context \<Rightarrow> state \<Rightarrow> unit outcome option" where
  "exec rec (Resolve tg t named) given cap s =
     (case call_resolve rec (pick tg given cap) t named s of
        None \<Rightarrow> None
      | Some (Inl e, s1) \<Rightarrow> Some (Inl e, s1)
      | Some (Inr ptr, s1) \<Rightarrow> Some (Inr (), s1))"
| "exec rec (TryResolve tg t named) given cap s =
     (case call_tryResolve rec (pick tg given cap) t named s of
        None \<Rightarrow> None
      | Some (Inl e, s1) \<Rightarrow> Some (Inl e, s1)
      | Some (Inr ptr, s1) \<Rightarrow> Some (Inr (), s1))"
| "exec rec (ResolveAll tg t) given cap s =
     (case call_resolveAll rec (pick tg given cap) t s of
        None \<Rightarrow> None
      | Some (Inl e, s1) \<Rightarrow> Some (Inl e, s1)
      | Some (Inr all, s1) \<Rightarrow> Some (Inr (), s1))"
| "exec rec (AfterResolve tg body) given cap s =
     Some (Context_afterResolve (pick tg given cap) (Callback cap body) s)"
| "exec rec Throw given cap s = Some (Inl UserException, s)"

fun run :: "calls \<Rightarrow> stmt list \<Rightarrow> Context \<Rightarrow> Context \<Rightarrow> state \<Rightarrow> unit outcome option" where
  "run rec [] given cap s = Some (Inr (), s)"
| "run rec (st # body) given cap s =
     (case exec rec st given cap s of
        None \<Rightarrow> None
      | Some (Inl e, s1) \<Rightarrow> Some (Inl e, s1)
      | Some (Inr u, s1) \<Rightarrow> run rec body given cap s1)"

subsection \<open>Bindings\<close>

text \<open>
  The call of the function in \<open>_fnCreate\<close> of binding \<open>b\<close>, by the lambda it holds: the
  construction function of the binding.
\<close>

fun construct :: "calls \<Rightarrow> nat \<Rightarrow> creator \<Rightarrow> Context \<Rightarrow> state \<Rightarrow> (inst \<times> Context) outcome option" where
  "construct rec b Unset slc s = Some (Inl BadFunctionCall, s)"
| "construct rec b (To timpl body) slc s =
     (let s0 = s\<lparr>trace := trace s @ [Construct b]\<rparr> in
      case setConcreteType timpl slc of
        Inl e \<Rightarrow> Some (Inl e, s0)
      | Inr slc1 \<Rightarrow>
          (case run rec body slc1 slc1 s0 of
             None \<Rightarrow> None
           | Some (Inl e, s1) \<Rightarrow> Some (Inl e, s1)
           | Some (Inr u, s1) \<Rightarrow>
               Some (Inr (Ptr (length (objects s1)), slc1),
                     s1\<lparr>objects := objects s1 @ [timpl]\<rparr>)))"
| "construct rec b (ToNoDependancy timpl) slc s =
     (let s0 = s\<lparr>trace := trace s @ [Construct b]\<rparr> in
      case setConcreteType timpl slc of
        Inl e \<Rightarrow> Some (Inl e, s0)
      | Inr slc1 \<Rightarrow>
          Some (Inr (Ptr (length (objects s0)), slc1), s0\<lparr>objects := objects s0 @ [timpl]\<rparr>))"
| "construct rec b (ToFactory timpl body null) slc s =
     (let s0 = s\<lparr>trace := trace s @ [Construct b]\<rparr> in
      case setConcreteType timpl slc of
        Inl e \<Rightarrow> Some (Inl e, s0)
      | Inr slc1 \<Rightarrow>
          (case run rec body slc1 slc1 s0 of
             None \<Rightarrow> None
           | Some (Inl e, s1) \<Rightarrow> Some (Inl e, s1)
           | Some (Inr u, s1) \<Rightarrow>
               (if null then Some (Inr (Null, slc1), s1)
                else Some (Inr (Ptr (length (objects s1)), slc1),
                           s1\<lparr>objects := objects s1 @ [timpl]\<rparr>))))"
| "construct rec b (Alias t named) slc s =
     (let s0 = s\<lparr>trace := trace s @ [Construct b]\<rparr> in
      case call_resolve rec slc t (case named of None \<Rightarrow> getName slc | Some nm \<Rightarrow> nm) s0 of
        None \<Rightarrow> None
      | Some (Inl e, s1) \<Rightarrow> Some (Inl e, s1)
      | Some (Inr ptr, s1) \<Rightarrow> Some (Inr (ptr, slc), s1))"

text \<open>
  \<open>shared_ptr_binding::get\<close>: \<open>return _fnGet(slc)\<close>, by the function \<open>_fnGet\<close> holds. The
  first lambda of \<open>asSingleton\<close> calls \<open>_fnCreate\<close>, stores the result in \<open>_singleton\<close> and
  rebinds \<open>_fnGet\<close> to the second, which returns \<open>_singleton\<close>.
\<close>

definition get :: "calls \<Rightarrow> nat \<Rightarrow> Context \<Rightarrow> state \<Rightarrow> (inst \<times> Context) outcome option" where
  "get rec b slc s =
     (case deref (bindings s) b of
        None \<Rightarrow> Some (Inl Dangling, s)
      | Some bd \<Rightarrow>
          (case fnGet bd of
             Creator c \<Rightarrow> construct rec b c slc s
           | Instance i \<Rightarrow> Some (Inr (i, slc), s)
           | SingletonFirst \<Rightarrow>
               (case construct rec b (fnCreate bd) slc s of
                  None \<Rightarrow> None
                | Some (Inl e, s1) \<Rightarrow> Some (Inl e, s1)
                | Some (Inr (ptr, slc1), s1) \<Rightarrow>
                    Some (Inr (ptr, slc1),
                          upd_binding b (\<lambda>bd. bd\<lparr>singleton := ptr, fnGet := SingletonCached\<rparr>) s1))
           | SingletonCached \<Rightarrow> Some (Inr (singleton bd, slc), s)))"

text \<open>\<open>TypedServiceLocator::tryResolve\<close>: \<open>nullptr\<close> when the name is not in the map.\<close>

definition TypedServiceLocator_tryResolve ::
  "calls \<Rightarrow> (string \<times> nat) list \<Rightarrow> string \<Rightarrow> Context \<Rightarrow> state \<Rightarrow> (inst \<times> Context) outcome option" where
  "TypedServiceLocator_tryResolve rec m nm slc s =
     (case map_of m nm of
        None \<Rightarrow> Some (Inr (Null, slc), s)
      | Some b \<Rightarrow> get rec b slc s)"

subsection \<open>The locator chain\<close>

definition unable :: "type_index \<Rightarrow> Context \<Rightarrow> error" where
  "unable t slc = UnableToResolve t (getResolvePath slc)"

text \<open>\<open>ServiceLocator::_resolve<IFace>\<close>, on the chain of the locator it is called on.\<close>

fun ServiceLocator_resolve ::
  "calls \<Rightarrow> type_index \<Rightarrow> nat list \<Rightarrow> Context \<Rightarrow> state \<Rightarrow> inst outcome option" where
  "ServiceLocator_resolve rec t [] slc s = Some (Inl Dangling, s)"
| "ServiceLocator_resolve rec t (l # ps) slc s =
     (case getTypedServiceLocator s l t of
        None \<Rightarrow>
          (if ps = [] then Some (Inl (unable t slc), s)
           else ServiceLocator_resolve rec t ps slc s)
      | Some nsl \<Rightarrow>
          (case TypedServiceLocator_tryResolve rec nsl (getName slc) slc s of
             None \<Rightarrow> None
           | Some (Inl e, s1) \<Rightarrow> Some (Inl e, s1)
           | Some (Inr (ptr, slc1), s1) \<Rightarrow>
               (if ptr = Null
                then (if ps = [] then Some (Inl (unable t slc1), s1)
                      else ServiceLocator_resolve rec t ps slc1 s1)
                else Some (Inr ptr, s1))))"

text \<open>\<open>ServiceLocator::_tryResolve<IFace>\<close>.\<close>

fun ServiceLocator_tryResolve ::
  "calls \<Rightarrow> type_index \<Rightarrow> nat list \<Rightarrow> Context \<Rightarrow> state \<Rightarrow> inst outcome option" where
  "ServiceLocator_tryResolve rec t [] slc s = Some (Inl Dangling, s)"
| "ServiceLocator_tryResolve rec t (l # ps) slc s =
     (case getTypedServiceLocator s l t of
        None \<Rightarrow>
          (if ps = [] then Some (Inr Null, s)
           else ServiceLocator_tryResolve rec t ps slc s)
      | Some nsl \<Rightarrow>
          (case TypedServiceLocator_tryResolve rec nsl (getName slc) slc s of
             None \<Rightarrow> None
           | Some (Inl e, s1) \<Rightarrow> Some (Inl e, s1)
           | Some (Inr (ptr, slc1), s1) \<Rightarrow>
               (if ptr = Null \<and> ps \<noteq> []
                then ServiceLocator_tryResolve rec t ps slc1 s1
                else Some (Inr ptr, s1))))"

text \<open>
  \<open>TypedServiceLocator::visitAll\<close> with the visitor of \<open>Context::resolveAll\<close>: the bindings
  of the name map in the order of the map, each with a new child Context of name \<open>""\<close>.
\<close>

fun TypedServiceLocator_visitAll ::
  "calls \<Rightarrow> type_index \<Rightarrow> nat list \<Rightarrow> Context \<Rightarrow> inst list \<Rightarrow> state \<Rightarrow> inst list outcome option" where
  "TypedServiceLocator_visitAll rec t [] this all s = Some (Inr all, s)"
| "TypedServiceLocator_visitAll rec t (b # bs) this all s =
     (let ctx = Child this t [] None in
      case checkRecursiveResolve ctx this of
        Inl e \<Rightarrow> Some (Inl e, s)
      | Inr u \<Rightarrow>
          (case get rec b ctx s of
             None \<Rightarrow> None
           | Some (Inl e, s1) \<Rightarrow> Some (Inl e, s1)
           | Some (Inr (ptr, ctx1), s1) \<Rightarrow>
               TypedServiceLocator_visitAll rec t bs this (all @ [ptr]) s1))"

text \<open>\<open>ServiceLocator::_visitAll<IFace>\<close>: this locator first, then the parent.\<close>

fun ServiceLocator_visitAll ::
  "calls \<Rightarrow> type_index \<Rightarrow> nat list \<Rightarrow> Context \<Rightarrow> inst list \<Rightarrow> state \<Rightarrow> inst list outcome option" where
  "ServiceLocator_visitAll rec t [] this all s = Some (Inl Dangling, s)"
| "ServiceLocator_visitAll rec t (l # ps) this all s =
     (case (case getTypedServiceLocator s l t of
              None \<Rightarrow> Some (Inr all, s)
            | Some nsl \<Rightarrow> TypedServiceLocator_visitAll rec t (map snd nsl) this all s) of
        None \<Rightarrow> None
      | Some (Inl e, s1) \<Rightarrow> Some (Inl e, s1)
      | Some (Inr all1, s1) \<Rightarrow>
          (if ps = [] then Some (Inr all1, s1)
           else ServiceLocator_visitAll rec t ps this all1 s1))"

subsection \<open>The after-resolve list\<close>

text \<open>
  One round of the loop of the private \<open>Context::afterResolve()\<close> over
  \<open>*_fnAfterResolveList\<close>, at position \<open>i\<close> of the list of root \<open>r\<close>: a \<open>std::list\<close> keeps its
  iterators when elements are appended, so the loop reaches what a callback appends.
\<close>

definition drain :: "calls \<Rightarrow> nat \<Rightarrow> nat \<Rightarrow> nat \<Rightarrow> state \<Rightarrow> unit outcome option" where
  "drain rec r l i s =
     (case deref (queues s) r of
        Some (Some q) \<Rightarrow>
          (if i < length q
           then (case q ! i of
                   Callback cap body \<Rightarrow>
                     (let (f, s1) = new_root s;
                          s2 = s1\<lparr>trace := trace s1 @ [Run r (q ! i) (Root f l)]\<rparr>
                      in case run rec body (Root f l) cap s2 of
                           None \<Rightarrow> None
                         | Some (Inl e, s3) \<Rightarrow> Some (Inl e, s3)
                         | Some (Inr u, s3) \<Rightarrow> call_drain rec r l (Suc i) s3))
           else Some (Inr (), s))
      | _ \<Rightarrow> Some (Inl Dangling, s))"

text \<open>The private \<open>Context::afterResolve()\<close>.\<close>

fun afterResolve :: "calls \<Rightarrow> Context \<Rightarrow> state \<Rightarrow> unit outcome option" where
  "afterResolve rec (Child p t nm ct) s = Some (Inr (), s)"
| "afterResolve rec (Root r l) s =
     (case deref (queues s) r of
        None \<Rightarrow> Some (Inl Dangling, s)
      | Some None \<Rightarrow> Some (Inr (), s)
      | Some (Some q) \<Rightarrow>
          (case drain rec r l 0 s of
             None \<Rightarrow> None
           | Some (Inl e, s1) \<Rightarrow> Some (Inl e, s1)
           | Some (Inr u, s1) \<Rightarrow> Some (Inr (), s1\<lparr>queues := (queues s1)[r := None]\<rparr>)))"

subsection \<open>The resolve operations of a Context\<close>

text \<open>\<open>Context::resolve<IFace>(named)\<close>; the overload without a name passes \<open>""\<close>.\<close>

definition Context_resolve ::
  "calls \<Rightarrow> Context \<Rightarrow> type_index \<Rightarrow> string \<Rightarrow> state \<Rightarrow> inst outcome option" where
  "Context_resolve rec this t named s =
     (let ctx = Child this t named None in
      case checkRecursiveResolve ctx this of
        Inl e \<Rightarrow> Some (Inl e, s)
      | Inr u \<Rightarrow>
          (case lock s (sl_of this) of
             None \<Rightarrow> Some (Inl Dangling, s)
           | Some chain \<Rightarrow>
               (case ServiceLocator_resolve rec t chain ctx s of
                  None \<Rightarrow> None
                | Some (Inl e, s1) \<Rightarrow> Some (Inl e, s1)
                | Some (Inr ptr, s1) \<Rightarrow>
                    (case afterResolve rec this s1 of
                       None \<Rightarrow> None
                     | Some (Inl e, s2) \<Rightarrow> Some (Inl e, s2)
                     | Some (Inr u', s2) \<Rightarrow> Some (Inr ptr, s2)))))"

text \<open>\<open>Context::tryResolve<IFace>(named)\<close>.\<close>

definition Context_tryResolve ::
  "calls \<Rightarrow> Context \<Rightarrow> type_index \<Rightarrow> string \<Rightarrow> state \<Rightarrow> inst outcome option" where
  "Context_tryResolve rec this t named s =
     (let ctx = Child this t named None in
      case checkRecursiveResolve ctx this of
        Inl e \<Rightarrow> Some (Inl e, s)
      | Inr u \<Rightarrow>
          (case lock s (sl_of this) of
             None \<Rightarrow> Some (Inl Dangling, s)
           | Some chain \<Rightarrow>
               (case ServiceLocator_tryResolve rec t chain ctx s of
                  None \<Rightarrow> None
                | Some (Inl e, s1) \<Rightarrow> Some (Inl e, s1)
                | Some (Inr ptr, s1) \<Rightarrow>
                    (case afterResolve rec this s1 of
                       None \<Rightarrow> None
                     | Some (Inl e, s2) \<Rightarrow> Some (Inl e, s2)
                     | Some (Inr u', s2) \<Rightarrow> Some (Inr ptr, s2)))))"

text \<open>\<open>Context::resolveAll<IFace>(all)\<close>.\<close>

definition Context_resolveAll ::
  "calls \<Rightarrow> Context \<Rightarrow> type_index \<Rightarrow> state \<Rightarrow> inst list outcome option" where
  "Context_resolveAll rec this t s =
     (case lock s (sl_of this) of
        None \<Rightarrow> Some (Inl Dangling, s)
      | Some chain \<Rightarrow>
          (case ServiceLocator_visitAll rec t chain this [] s of
             None \<Rightarrow> None
           | Some (Inl e, s1) \<Rightarrow> Some (Inl e, s1)
           | Some (Inr all, s1) \<Rightarrow>
               (case afterResolve rec this s1 of
                  None \<Rightarrow> None
                | Some (Inl e, s2) \<Rightarrow> Some (Inl e, s2)
                | Some (Inr u', s2) \<Rightarrow> Some (Inr all, s2))))"

subsection \<open>Closing the recursion\<close>

text \<open>
  \<open>engine n\<close> answers the re-entrant calls to a nesting depth of \<open>n\<close>: a call that needs more
  has not returned (\<open>None\<close>).
\<close>

definition stuck :: calls where
  "stuck = \<lparr>call_resolve = (\<lambda>this t named s. None),
            call_tryResolve = (\<lambda>this t named s. None),
            call_resolveAll = (\<lambda>this t s. None),
            call_drain = (\<lambda>r l i s. None)\<rparr>"

primrec engine :: "nat \<Rightarrow> calls" where
  "engine 0 = stuck"
| "engine (Suc n) =
     \<lparr>call_resolve = Context_resolve (engine n),
      call_tryResolve = Context_tryResolve (engine n),
      call_resolveAll = Context_resolveAll (engine n),
      call_drain = drain (engine n)\<rparr>"

subsection \<open>getContext\<close>

text \<open>
  \<open>shared_ptr_binding::eagerBind\<close>: \<open>_fnGet\<close> is called with a child Context of name \<open>""\<close>
  and the result is dropped.
\<close>

definition eagerBind :: "calls \<Rightarrow> nat \<Rightarrow> Context \<Rightarrow> state \<Rightarrow> unit outcome option" where
  "eagerBind rec b slc s =
     (case deref (bindings s) b of
        None \<Rightarrow> Some (Inl Dangling, s)
      | Some bd \<Rightarrow>
          (case get rec b (Child slc (iface bd) [] None) s of
             None \<Rightarrow> None
           | Some (Inl e, s1) \<Rightarrow> Some (Inl e, s1)
           | Some (Inr r, s1) \<Rightarrow> Some (Inr (), s1)))"

fun eagerBindAll :: "calls \<Rightarrow> nat list \<Rightarrow> Context \<Rightarrow> state \<Rightarrow> unit outcome option" where
  "eagerBindAll rec [] slc s = Some (Inr (), s)"
| "eagerBindAll rec (b # bs) slc s =
     (case eagerBind rec b slc s of
        None \<Rightarrow> None
      | Some (Inl e, s1) \<Rightarrow> Some (Inl e, s1)
      | Some (Inr u, s1) \<Rightarrow> eagerBindAll rec bs slc s1)"

text \<open>
  \<open>ServiceLocator::getContext\<close>: the pending eager bindings are run on the locator's own
  root Context and the list is cleared; then the Context is returned.
\<close>

definition getContext :: "calls \<Rightarrow> nat \<Rightarrow> state \<Rightarrow> Context outcome option" where
  "getContext rec l s =
     (case deref (locators s) l of
        None \<Rightarrow> Some (Inl Dangling, s)
      | Some loc \<Rightarrow>
          (let ctx = Root (root_context loc) l in
           if eagerBindings loc \<noteq> []
           then (case eagerBindAll rec (eagerBindings loc) ctx s of
                   None \<Rightarrow> None
                 | Some (Inl e, s1) \<Rightarrow> Some (Inl e, s1)
                 | Some (Inr u, s1) \<Rightarrow>
                     Some (Inr ctx,
                           s1\<lparr>locators := (locators s1)[l := (locators s1 ! l)\<lparr>eagerBindings := []\<rparr>]\<rparr>))
           else Some (Inr ctx, s)))"

section \<open>Notions used in the statements\<close>

text \<open>
  The new Context for \<open>(t, nm)\<close> under \<open>this\<close> repeats an interface and a name that \<open>this\<close>
  or one of its ancestors already has.
\<close>

definition conflicts :: "Context \<Rightarrow> type_index \<Rightarrow> string \<Rightarrow> bool" where
  "conflicts this t nm = (\<exists>a \<in> set (ancestry this). getInterfaceTypeIndex a = t \<and> getName a = nm)"

definition is_cycle :: "error \<Rightarrow> bool" where
  "is_cycle e = (case e of RecursiveResolve p \<Rightarrow> True | _ \<Rightarrow> False)"

definition is_unable :: "type_index \<Rightarrow> error \<Rightarrow> bool" where
  "is_unable t e = (case e of UnableToResolve t' p \<Rightarrow> t' = t | _ \<Rightarrow> False)"

text \<open>The re-entrant calls raise no RecursiveResolve of their own.\<close>

definition quiet :: "calls \<Rightarrow> bool" where
  "quiet rec =
     ((\<forall>this t nm s e s'. call_resolve rec this t nm s = Some (Inl e, s') \<longrightarrow> \<not> is_cycle e)
    \<and> (\<forall>this t nm s e s'. call_tryResolve rec this t nm s = Some (Inl e, s') \<longrightarrow> \<not> is_cycle e)
    \<and> (\<forall>this t s e s'. call_resolveAll rec this t s = Some (Inl e, s') \<longrightarrow> \<not> is_cycle e)
    \<and> (\<forall>r l i s e s'. call_drain rec r l i s = Some (Inl e, s') \<longrightarrow> \<not> is_cycle e))"

text \<open>
  How the result of tryResolve stands to that of resolve on the same arguments: the same,
  except that an UnableToResolve for the interface may have become an empty result.
\<close>

definition softened :: "type_index \<Rightarrow> inst outcome option \<Rightarrow> inst outcome option \<Rightarrow> bool" where
  "softened t hard soft =
     (case hard of
        None \<Rightarrow> soft = None
      | Some (Inr p, s1) \<Rightarrow> p \<noteq> Null \<and> soft = Some (Inr p, s1)
      | Some (Inl e, s1) \<Rightarrow>
          soft = Some (Inl e, s1) \<or> (is_unable t e \<and> soft = Some (Inr Null, s1)))"

text \<open>The bindings of a name map in ascending order of their names.\<close>

definition by_name :: "(string \<times> nat) list \<Rightarrow> nat list" where
  "by_name m = map (\<lambda>k. the (map_of m k)) (sorted_list_of_set (fst ` set m))"

text \<open>
  The bindings of an interface along a chain of locators: nearest locator first, each
  locator's bindings by name.
\<close>

definition enumerated :: "state \<Rightarrow> type_index \<Rightarrow> nat list \<Rightarrow> nat list" where
  "enumerated s t chain =
     concat (map (\<lambda>l. case getTypedServiceLocator s l t of None \<Rightarrow> [] | Some m \<Rightarrow> by_name m) chain)"

text \<open>Every name map of the state has its names strictly ascending.\<close>

definition ordered :: "state \<Rightarrow> bool" where
  "ordered s =
     (\<forall>loc \<in> set (locators s). \<forall>tm \<in> set (typed_locators loc). sorted_wrt (<) (map fst (snd tm)))"

text \<open>
  What a run of the engine may do to a binding: nothing, or the one assignment in the lambda
  of \<open>asSingleton\<close>, which stores the instance and happens only after the construction
  function of that binding was entered.
\<close>

definition unchanged_or_cached :: "event list \<Rightarrow> nat \<Rightarrow> shared_ptr_binding \<Rightarrow> shared_ptr_binding \<Rightarrow> bool" where
  "unchanged_or_cached evs b bd bd' =
     (bd' = bd \<or> (fnGet bd = SingletonFirst \<and> Construct b \<in> set evs
                  \<and> (\<exists>p. bd' = bd\<lparr>singleton := p, fnGet := SingletonCached\<rparr>)))"

text \<open>
  What a run of the engine may do to the state: locators are not touched, no binding is added,
  objects and events are only appended, and each binding is unchanged or has been cached.
\<close>

definition steady :: "state \<Rightarrow> state \<Rightarrow> bool" where
  "steady s s' =
     (locators s' = locators s
    \<and> length (bindings s') = length (bindings s)
    \<and> length (queues s) \<le> length (queues s')
    \<and> (\<exists>objs. objects s' = objects s @ objs)
    \<and> (\<exists>evs. trace s' = trace s @ evs
          \<and> (\<forall>b < length (bindings s). unchanged_or_cached evs b (bindings s ! b) (bindings s' ! b))))"

text \<open>The re-entrant calls change the state only in that way.\<close>

definition sound :: "calls \<Rightarrow> bool" where
  "sound rec =
     ((\<forall>this t nm s r s'. call_resolve rec this t nm s = Some (r, s') \<longrightarrow> steady s s')
    \<and> (\<forall>this t nm s r s'. call_tryResolve rec this t nm s = Some (r, s') \<longrightarrow> steady s s')
    \<and> (\<forall>this t s r s'. call_resolveAll rec this t s = Some (r, s') \<longrightarrow> steady s s')
    \<and> (\<forall>r l k s u s'. call_drain rec r l k s = Some (u, s') \<longrightarrow> steady s s'))"

text \<open>The events logged between two states.\<close>

definition new_events :: "state \<Rightarrow> state \<Rightarrow> event list" where
  "new_events s s' = drop (length (trace s)) (trace s')"

text \<open>
  A singleton binding before its first successful get: \<open>_fnGet\<close> is the lambda of
  \<open>asSingleton\<close> with \<open>_singleton == nullptr\<close>.
\<close>

definition uninitialized :: "state \<Rightarrow> nat \<Rightarrow> bool" where
  "uninitialized s b =
     (case deref (bindings s) b of
        None \<Rightarrow> False
      | Some bd \<Rightarrow> fnGet bd = SingletonFirst \<and> fnCreate bd \<noteq> Unset)"

text \<open>A singleton binding that holds its instance.\<close>

definition cached :: "state \<Rightarrow> nat \<Rightarrow> inst \<Rightarrow> bool" where
  "cached s b p =
     (case deref (bindings s) b of
        None \<Rightarrow> False
      | Some bd \<Rightarrow> fnGet bd = SingletonCached \<and> singleton bd = p)"

definition initialized :: "state \<Rightarrow> nat \<Rightarrow> bool" where
  "initialized s b = (\<exists>p. cached s b p)"

text \<open>The Context a callback holds in its closure.\<close>

fun captured :: "callback \<Rightarrow> Context" where
  "captured (Callback cap body) = cap"

text \<open>The Context is not the root Context object \<open>r\<close> itself.\<close>

definition outside :: "nat \<Rightarrow> Context \<Rightarrow> bool" where
  "outside r this = (\<not> (is_root this \<and> root_of this = r))"

text \<open>
  The root Context \<open>r\<close> exists, and no callback on any after-resolve list holds it in its
  closure: only the caller who owns \<open>r\<close> can call a resolve operation on it.
\<close>

definition unshared :: "nat \<Rightarrow> state \<Rightarrow> bool" where
  "unshared r s =
     (r < length (queues s)
    \<and> (\<forall>q \<in> set (queues s). \<forall>cb \<in> set (case q of None \<Rightarrow> [] | Some cs \<Rightarrow> cs).
          outside r (captured cb)))"

text \<open>The callbacks queued on root \<open>r\<close> in a run of events, in the order they were queued.\<close>

definition enqueued :: "nat \<Rightarrow> event list \<Rightarrow> callback list" where
  "enqueued r evs =
     concat (map (\<lambda>e. case e of Enqueue r' cb \<Rightarrow> if r' = r then [cb] else [] | _ \<Rightarrow> []) evs)"

text \<open>
  The callbacks of the list of root \<open>r\<close> run in a run of events, each with the Context it was
  given, in the order they were run.
\<close>

definition runs :: "nat \<Rightarrow> event list \<Rightarrow> (callback \<times> Context) list" where
  "runs r evs =
     concat (map (\<lambda>e. case e of Run r' cb ctx \<Rightarrow> if r' = r then [(cb, ctx)] else [] | _ \<Rightarrow> []) evs)"

text \<open>The contents of \<open>*_fnAfterResolveList\<close> of root \<open>r\<close>; empty when the pointer is null.\<close>

definition pending :: "state \<Rightarrow> nat \<Rightarrow> callback list" where
  "pending s r = (case deref (queues s) r of Some (Some cs) \<Rightarrow> cs | _ \<Rightarrow> [])"

text \<open>
  What code that cannot reach the root Context \<open>r\<close> does to its after-resolve list: it runs
  none of its callbacks, and it appends the callbacks it queues on \<open>r\<close>.
\<close>

definition apart :: "nat \<Rightarrow> state \<Rightarrow> state \<Rightarrow> bool" where
  "apart r s s' =
     (unshared r s \<longrightarrow>
        unshared r s' \<and> length (queues s) \<le> length (queues s')
      \<and> (\<exists>evs. trace s' = trace s @ evs \<and> runs r evs = []
             \<and> pending s' r = pending s r @ enqueued r evs))"

text \<open>
  The Contexts are root Contexts of locator \<open>l\<close>, each a new object: their addresses are
  distinct and lie between \<open>lo\<close> and \<open>hi\<close>.
\<close>

definition fresh_roots :: "nat \<Rightarrow> nat \<Rightarrow> nat \<Rightarrow> Context list \<Rightarrow> bool" where
  "fresh_roots l lo hi ctxs =
     (\<exists>fs. ctxs = map (\<lambda>f. Root f l) fs \<and> sorted_wrt (<) fs \<and> (\<forall>f \<in> set fs. lo \<le> f \<and> f < hi))"

text \<open>
  What the loop over the list of root \<open>r\<close> has done when it leaves the list, having started
  at position \<open>i\<close>: it has run every callback from position \<open>i\<close> on, those queued meanwhile
  included, each with a new root Context.
\<close>

definition drained :: "nat \<Rightarrow> nat \<Rightarrow> nat \<Rightarrow> state \<Rightarrow> state \<Rightarrow> bool" where
  "drained r l i s s' =
     (unshared r s' \<and> length (queues s) \<le> length (queues s')
    \<and> (\<exists>evs. trace s' = trace s @ evs
          \<and> pending s' r = pending s r @ enqueued r evs
          \<and> map fst (runs r evs) = drop i (pending s' r)
          \<and> fresh_roots l (length (queues s)) (length (queues s')) (map snd (runs r evs))))"

text \<open>The re-entrant calls act on the list of root \<open>r\<close> in that way.\<close>

definition apart_calls :: "nat \<Rightarrow> calls \<Rightarrow> bool" where
  "apart_calls r rec =
     ((\<forall>this t nm s x s'. call_resolve rec this t nm s = Some (x, s') \<and> outside r this
          \<longrightarrow> apart r s s')
    \<and> (\<forall>this t nm s x s'. call_tryResolve rec this t nm s = Some (x, s') \<and> outside r this
          \<longrightarrow> apart r s s')
    \<and> (\<forall>this t s x s'. call_resolveAll rec this t s = Some (x, s') \<and> outside r this
          \<longrightarrow> apart r s s')
    \<and> (\<forall>r' l k s x s'. call_drain rec r' l k s = Some (x, s') \<and> r' \<noteq> r \<longrightarrow> apart r s s')
    \<and> (\<forall>l k s s'. call_drain rec r l k s = Some (Inr (), s') \<and> unshared r s
          \<longrightarrow> drained r l k s s'))"

text \<open>
  What the private \<open>afterResolve()\<close> of root \<open>r\<close> has done when it returns: the list is
  deleted, and every callback that was on it or was queued on it meanwhile has been run.
\<close>

definition flushed :: "nat \<Rightarrow> nat \<Rightarrow> state \<Rightarrow> state \<Rightarrow> bool" where
  "flushed r l s s' =
     (deref (queues s') r = Some None \<and> length (queues s) \<le> length (queues s')
    \<and> (\<exists>evs. trace s' = trace s @ evs
          \<and> map fst (runs r evs) = pending s r @ enqueued r evs
          \<and> fresh_roots l (length (queues s)) (length (queues s')) (map snd (runs r evs))))"

text \<open>The construction function is one of the lambdas that call no client code.\<close>

fun no_dependency :: "creator \<Rightarrow> bool" where
  "no_dependency (ToNoDependancy timpl) = True"
| "no_dependency Unset = False"
| "no_dependency (To timpl body) = False"
| "no_dependency (ToFactory timpl body null) = False"
| "no_dependency (Alias t named) = False"

text \<open>
  An uninitialized singleton whose construction function makes no nested call on a Context.
\<close>

definition direct :: "state \<Rightarrow> nat \<Rightarrow> bool" where
  "direct s b =
     (case deref (bindings s) b of
        None \<Rightarrow> False
      | Some bd \<Rightarrow> fnGet bd = SingletonFirst \<and> no_dependency (fnCreate bd))"

text \<open>The operation returned a result; it did not throw.\<close>

fun returned :: "error + 'a \<Rightarrow> bool" where
  "returned (Inr x) = True"
| "returned (Inl e) = False"

text \<open>
  What a run of the engine does with the construction function of binding \<open>b\<close>: it is not
  entered when \<open>b\<close> caches an instance; and when \<open>b\<close> is an uninitialized singleton without
  nested calls and the run returns, it is entered once if \<open>b\<close> ends up caching an instance and
  not at all otherwise.
\<close>

definition once :: "nat \<Rightarrow> bool \<Rightarrow> state \<Rightarrow> state \<Rightarrow> bool" where
  "once b ok s s' =
     ((initialized s b \<longrightarrow> Construct b \<notin> set (new_events s s'))
    \<and> (ok \<and> direct s b \<longrightarrow>
         count_list (new_events s s') (Construct b) = (if initialized s' b then 1 else 0)))"

definition settled :: "nat \<Rightarrow> bool \<Rightarrow> state \<Rightarrow> state \<Rightarrow> bool" where
  "settled b ok s s' = (steady s s' \<and> once b ok s s')"

text \<open>The re-entrant calls treat binding \<open>b\<close> in that way.\<close>

definition settled_calls :: "nat \<Rightarrow> calls \<Rightarrow> bool" where
  "settled_calls b rec =
     ((\<forall>this t nm s r s'. call_resolve rec this t nm s = Some (r, s') \<longrightarrow> settled b (returned r) s s')
    \<and> (\<forall>this t nm s r s'. call_tryResolve rec this t nm s = Some (r, s') \<longrightarrow> settled b (returned r) s s')
    \<and> (\<forall>this t s r s'. call_resolveAll rec this t s = Some (r, s') \<longrightarrow> settled b (returned r) s s')
    \<and> (\<forall>r' l k s r s'. call_drain rec r' l k s = Some (r, s') \<longrightarrow> settled b (returned r) s s'))"

text \<open>
  Modelled from the spec: \<open>resolveAll\<close> "invokes each Binding's get with a fresh child
  context; cycle detection applies independently per binding", here for the bindings of a
  list taken in its order. The result holds the instances in that order.
\<close>

fun get_each :: "calls \<Rightarrow> Context \<Rightarrow> type_index \<Rightarrow> nat list \<Rightarrow> state \<Rightarrow> inst list outcome option" where
  "get_each rec this t [] s = Some (Inr [], s)"
| "get_each rec this t (b # bs) s =
     (case checkRecursiveResolve (Child this t [] None) this of
        Inl e \<Rightarrow> Some (Inl e, s)
      | Inr u \<Rightarrow>
          (case get rec b (Child this t [] None) s of
             None \<Rightarrow> None
           | Some (Inl e, s1) \<Rightarrow> Some (Inl e, s1)
           | Some (Inr (p, slc1), s1) \<Rightarrow>
               (case get_each rec this t bs s1 of
                  None \<Rightarrow> None
                | Some (Inl e, s2) \<Rightarrow> Some (Inl e, s2)
                | Some (Inr ps, s2) \<Rightarrow> Some (Inr (p # ps), s2))))"

text \<open>The instances of a result appended to those collected before.\<close>

definition collected :: "inst list \<Rightarrow> inst list outcome option \<Rightarrow> inst list outcome option" where
  "collected acc res =
     (case res of
        None \<Rightarrow> None
      | Some (Inl e, s1) \<Rightarrow> Some (Inl e, s1)
      | Some (Inr ps, s1) \<Rightarrow> Some (Inr (acc @ ps), s1))"

definition next_each ::
  "calls \<Rightarrow> Context \<Rightarrow> type_index \<Rightarrow> nat list \<Rightarrow> inst list outcome option \<Rightarrow> inst list outcome option" where
  "next_each rec this t cs res =
     (case res of
        None \<Rightarrow> None
      | Some (Inl e, s1) \<Rightarrow> Some (Inl e, s1)
      | Some (Inr ps, s1) \<Rightarrow> collected ps (get_each rec this t cs s1))"

text \<open>
  The bindings of an interface in the order \<open>_visitAll\<close> meets them: along the chain, each
  name map in its stored order.
\<close>

definition flat :: "state \<Rightarrow> type_index \<Rightarrow> nat list \<Rightarrow> nat list" where
  "flat s t chain =
     concat (map (\<lambda>l. case getTypedServiceLocator s l t of None \<Rightarrow> [] | Some m \<Rightarrow> map snd m) chain)"

section \<open>Scenarios\<close>

text \<open>
  A root locator binds \<open>ITest\<close> under \<open>"Y"\<close>, a child binds \<open>ITest\<close> under \<open>"X"\<close>.
\<close>

definition sc_can :: state where
  "sc_can =
     to 1 (ToNoDependancy ''TestB'') (snd (bind 1 ''ITest'' ''X''
       (snd (enter 0
         (to 0 (ToNoDependancy ''TestA'') (snd (bind 0 ''ITest'' ''Y'' (snd (create init)))))))))"

text \<open>One locator binds \<open>ITest\<close> under \<open>"B"\<close> first and under \<open>"A"\<close> second.\<close>

definition sc_order :: state where
  "sc_order =
     to 1 (ToNoDependancy ''TestA'') (snd (bind 0 ''ITest'' ''A''
       (to 0 (ToNoDependancy ''TestB'') (snd (bind 0 ''ITest'' ''B'' (snd (create init)))))))"

text \<open>
  The test ``Nested locator'': the root binds \<open>ITest\<close> to \<open>TestA\<close>, two children are entered,
  the first child binds \<open>ITest\<close> to \<open>TestB\<close>.
\<close>

definition sc_nested :: state where
  "sc_nested =
     to 1 (To ''TestB'' []) (snd (bind 1 ''ITest'' []
       (snd (enter 0 (snd (enter 0
         (to 0 (To ''TestA'' []) (snd (bind 0 ''ITest'' [] (snd (create init)))))))))))"

text \<open>
  \<open>A\<close> is bound under \<open>"x"\<close> to a class whose constructor resolves \<open>A\<close> under \<open>"y"\<close>, and under
  \<open>"y"\<close> to a class without dependencies; \<open>B\<close> is bound to a class whose constructor resolves
  \<open>B\<close> itself.
\<close>

definition sc_cycle :: state where
  "sc_cycle =
     to 2 (To ''BImpl'' [Resolve Given ''B'' []]) (snd (bind 0 ''B'' []
       (to 1 (ToNoDependancy ''AImpl'') (snd (bind 0 ''A'' ''y''
         (to 0 (To ''AImpl'' [Resolve Given ''A'' ''y'']) (snd (bind 0 ''A'' ''x''
           (snd (create init))))))))))"

text \<open>
  The root binds \<open>ITest\<close> to \<open>TestA\<close>; a child binds \<open>ITest\<close> to a null instance; a second
  child binds nothing.
\<close>

definition sc_null :: state where
  "sc_null =
     snd (enter 0
       (toInstance 1 Null (snd (bind 1 ''ITest'' []
         (snd (enter 0
           (to 0 (ToNoDependancy ''TestA'') (snd (bind 0 ''ITest'' [] (snd (create init)))))))))))"

text \<open>
  The test ``Binding to implementation, tryResolve to null'': \<open>TestC\<close> is bound to itself and
  its constructor tries to resolve \<open>ITest\<close>, which is not bound; \<open>Bad\<close> is bound to a class
  whose constructor throws.
\<close>

definition sc_try :: state where
  "sc_try =
     to 1 (To ''Bad'' [Throw]) (snd (bind 0 ''Bad'' []
       (to 0 (To ''TestC'' [TryResolve Given ''ITest'' []]) (snd (bind 0 ''TestC'' []
         (snd (create init)))))))"


text \<open>
  Two singletons on one locator: \<open>ITest\<close> to \<open>TestA\<close> (test "Basic type binding as
  Singleton"), and \<open>Bad\<close>, whose constructor throws.
\<close>

definition sc_single :: state where
  "sc_single =
     asSingleton 1 (to 1 (To ''Bad'' [Throw]) (snd (bind 0 ''Bad'' []
       (asSingleton 0 (to 0 (To ''TestA'' []) (snd (bind 0 ''ITest'' [] (snd (create init)))))))))"

text \<open>
  Test "Eager binding": \<open>bind<TestEager>().toSelfNoDependancy().asSingleton().eagerly()\<close>.
\<close>

definition sc_eager :: state where
  "sc_eager =
     eagerly 0 (asSingleton 0 (to 0 (ToNoDependancy ''TestEager'')
       (snd (bind 0 ''TestEager'' [] (snd (create init))))))"

text \<open>
  A constructor that registers an after-resolve callback, which in turn registers another
  one through the Context the constructor was given.
\<close>

definition sc_defer :: state where
  "sc_defer =
     to 0 (To ''TestA'' [AfterResolve Given [AfterResolve Captured []]])
       (snd (bind 0 ''ITest'' [] (snd (create init))))"

text \<open>
  A singleton bound under the name \<open>"X"\<close> as an alias of \<open>IOther\<close> under the name of the
  Context. \<open>IOther\<close> under \<open>"X"\<close> is a class whose constructor calls \<open>resolveAll<ITest>\<close>,
  which reaches the singleton again with a Context named \<open>""\<close>; \<open>IOther\<close> under \<open>""\<close> has no
  dependency. In the second state the constructor throws after the call.
\<close>

definition sc_reenter :: state where
  "sc_reenter =
     to 2 (ToNoDependancy ''C'') (snd (bind 0 ''IOther'' []
       (to 1 (To ''B'' [ResolveAll Given ''ITest'']) (snd (bind 0 ''IOther'' ''X''
         (asSingleton 0 (to 0 (Alias ''IOther'' None)
           (snd (bind 0 ''ITest'' ''X'' (snd (create init)))))))))))"

definition sc_reenter_throw :: state where
  "sc_reenter_throw =
     to 2 (ToNoDependancy ''C'') (snd (bind 0 ''IOther'' []
       (to 1 (To ''B'' [ResolveAll Given ''ITest'', Throw]) (snd (bind 0 ''IOther'' ''X''
         (asSingleton 0 (to 0 (Alias ''IOther'' None)
           (snd (bind 0 ''ITest'' ''X'' (snd (create init)))))))))))"

text \<open>
  The same loop through an eager singleton: \<open>eagerBind\<close> resolves it with a Context named
  \<open>""\<close>, and the constructor of \<open>IOther\<close> under \<open>""\<close> resolves it under its name \<open>"X"\<close>.
\<close>

definition sc_eager_twice :: state where
  "sc_eager_twice =
     to 2 (ToNoDependancy ''C'') (snd (bind 0 ''IOther'' ''X''
       (to 1 (To ''B'' [Resolve Given ''ITest'' ''X'']) (snd (bind 0 ''IOther'' []
         (eagerly 0 (asSingleton 0 (to 0 (Alias ''IOther'' None)
           (snd (bind 0 ''ITest'' ''X'' (snd (create init))))))))))))"

text \<open>The eager singleton of test "Eager binding" on a locator that has a child.\<close>

definition sc_eager_child :: state where
  "sc_eager_child =
     snd (enter 0
       (eagerly 0 (asSingleton 0 (to 0 (ToNoDependancy ''TestEager'')
         (snd (bind 0 ''TestEager'' [] (snd (create init))))))))"

section \<open>Basic facts\<close>

lemma deref_Some [simp]: "i < length xs \<Longrightarrow> deref xs i = Some (xs ! i)"
  by (simp add: deref_def)

lemma deref_None [simp]: "\<not> i < length xs \<Longrightarrow> deref xs i = None"
  by (simp add: deref_def)

lemmas setup_defs = init_def create_def new_root_def enter_def bind_def to_def toInstance_def
  asSingleton_def asTransient_def eagerly_def upd_binding_def TypedServiceLocator_canResolve_def
  Let_def

lemmas run_defs = Context_canResolve_def Context_resolve_def Context_tryResolve_def
  Context_resolveAll_def lock_def getTypedServiceLocator_def own_binding_def
  TypedServiceLocator_tryResolve_def get_def unable_def typeid_void_def
  TypedServiceLocator_canResolve_def pick_def stuck_def Context_afterResolve_def drain_def
  new_root_def eagerBind_def getContext_def upd_binding_def Let_def

lemma check_cases:
  "checkRecursiveResolve ctx this =
     (if conflicts this (getInterfaceTypeIndex ctx) (getName ctx)
      then Inl (RecursiveResolve (getResolvePath ctx)) else Inr ())"
  by (induction this) (auto simp: conflicts_def typeid_void_def)

lemma map_of_map_insert:
  "map_of m k = None \<Longrightarrow> map_of (map_insert k v m) = (map_of m)(k \<mapsto> v)"
  by (induction m) (auto split: if_splits)

subsection \<open>The chain of locators\<close>

lemma typed_tryResolve_own:
  "getTypedServiceLocator s l t = Some m \<Longrightarrow>
   TypedServiceLocator_tryResolve rec m nm slc s =
     (case own_binding s l t nm of None \<Rightarrow> Some (Inr (Null, slc), s) | Some b \<Rightarrow> get rec b slc s)"
  by (simp add: TypedServiceLocator_tryResolve_def own_binding_def)

lemma own_binding_no_typed:
  "getTypedServiceLocator s l t = None \<Longrightarrow> own_binding s l t nm = None"
  by (simp add: own_binding_def)

text \<open>One step of the chain, by what the locator's own registry holds.\<close>

lemma resolve_step:
  "ServiceLocator_resolve rec t (l # ps) slc s =
     (case own_binding s l t (getName slc) of
        None \<Rightarrow> (if ps = [] then Some (Inl (unable t slc), s)
                 else ServiceLocator_resolve rec t ps slc s)
      | Some b \<Rightarrow>
          (case get rec b slc s of
             None \<Rightarrow> None
           | Some (Inl e, s1) \<Rightarrow> Some (Inl e, s1)
           | Some (Inr (ptr, slc1), s1) \<Rightarrow>
               (if ptr = Null
                then (if ps = [] then Some (Inl (unable t slc1), s1)
                      else ServiceLocator_resolve rec t ps slc1 s1)
                else Some (Inr ptr, s1))))"
  by (cases "getTypedServiceLocator s l t")
     (auto simp: typed_tryResolve_own own_binding_no_typed split: option.splits)

lemma tryResolve_step:
  "ServiceLocator_tryResolve rec t (l # ps) slc s =
     (case own_binding s l t (getName slc) of
        None \<Rightarrow> (if ps = [] then Some (Inr Null, s)
                 else ServiceLocator_tryResolve rec t ps slc s)
      | Some b \<Rightarrow>
          (case get rec b slc s of
             None \<Rightarrow> None
           | Some (Inl e, s1) \<Rightarrow> Some (Inl e, s1)
           | Some (Inr (ptr, slc1), s1) \<Rightarrow>
               (if ptr = Null \<and> ps \<noteq> []
                then ServiceLocator_tryResolve rec t ps slc1 s1
                else Some (Inr ptr, s1))))"
  by (cases "getTypedServiceLocator s l t")
     (auto simp: typed_tryResolve_own own_binding_no_typed split: option.splits)

lemma resolve_skips_unbound:
  "\<forall>l \<in> set pre. own_binding s l t (getName slc) = None \<Longrightarrow>
   ServiceLocator_resolve rec t (pre @ a # rest) slc s
     = ServiceLocator_resolve rec t (a # rest) slc s"
  by (induction pre) (simp_all add: resolve_step del: ServiceLocator_resolve.simps)

lemma tryResolve_skips_unbound:
  "\<forall>l \<in> set pre. own_binding s l t (getName slc) = None \<Longrightarrow>
   ServiceLocator_tryResolve rec t (pre @ a # rest) slc s
     = ServiceLocator_tryResolve rec t (a # rest) slc s"
  by (induction pre) (simp_all add: tryResolve_step del: ServiceLocator_tryResolve.simps)

lemma resolve_unbound:
  "chain \<noteq> [] \<Longrightarrow> \<forall>l \<in> set chain. own_binding s l t (getName slc) = None \<Longrightarrow>
   ServiceLocator_resolve rec t chain slc s = Some (Inl (unable t slc), s)"
  by (induction chain) (auto simp add: resolve_step simp del: ServiceLocator_resolve.simps)

lemma tryResolve_unbound:
  "chain \<noteq> [] \<Longrightarrow> \<forall>l \<in> set chain. own_binding s l t (getName slc) = None \<Longrightarrow>
   ServiceLocator_tryResolve rec t chain slc s = Some (Inr Null, s)"
  by (induction chain) (auto simp add: tryResolve_step simp del: ServiceLocator_tryResolve.simps)

lemma resolve_never_null:
  "ServiceLocator_resolve rec t chain slc s = Some (Inr p, s') \<Longrightarrow> p \<noteq> Null"
proof (induction chain arbitrary: slc s)
  case Nil
  then show ?case by simp
next
  case (Cons l ps)
  then show ?case
    by (auto simp add: resolve_step simp del: ServiceLocator_resolve.simps
             split: option.splits sum.splits prod.splits if_splits)
qed

lemma softened_chain:
  "chain \<noteq> [] \<Longrightarrow>
   softened t (ServiceLocator_resolve rec t chain slc s) (ServiceLocator_tryResolve rec t chain slc s)"
proof (induction chain arbitrary: slc s)
  case Nil
  then show ?case by simp
next
  case (Cons l ps)
  show ?case
  proof (cases "ps = []")
    case True
    then show ?thesis
      by (auto simp add: resolve_step tryResolve_step softened_def unable_def is_unable_def
               simp del: ServiceLocator_resolve.simps ServiceLocator_tryResolve.simps
               split: option.splits sum.splits prod.splits)
  next
    case False
    then have ih: "\<And>slc s. softened t (ServiceLocator_resolve rec t ps slc s)
                              (ServiceLocator_tryResolve rec t ps slc s)"
      using Cons.IH by blast
    show ?thesis
      using False ih
      by (auto simp add: resolve_step tryResolve_step
               simp del: ServiceLocator_resolve.simps ServiceLocator_tryResolve.simps
               split: option.splits sum.splits prod.splits)
         (auto simp: softened_def)
  qed
qed


subsection \<open>Where a RecursiveResolve comes from\<close>

lemma quiet_call_resolve:
  "quiet rec \<Longrightarrow> call_resolve rec this t nm s = Some (Inl e, s') \<Longrightarrow> \<not> is_cycle e"
  unfolding quiet_def by fast

lemma quiet_call_tryResolve:
  "quiet rec \<Longrightarrow> call_tryResolve rec this t nm s = Some (Inl e, s') \<Longrightarrow> \<not> is_cycle e"
  unfolding quiet_def by fast

lemma quiet_call_resolveAll:
  "quiet rec \<Longrightarrow> call_resolveAll rec this t s = Some (Inl e, s') \<Longrightarrow> \<not> is_cycle e"
  unfolding quiet_def by fast

lemma quiet_call_drain:
  "quiet rec \<Longrightarrow> call_drain rec r l i s = Some (Inl e, s') \<Longrightarrow> \<not> is_cycle e"
  unfolding quiet_def by fast

lemmas quiet_calls = quiet_call_resolve quiet_call_tryResolve quiet_call_resolveAll quiet_call_drain

lemma not_cycle [simp]:
  "\<not> is_cycle Dangling" "\<not> is_cycle BindingIssue" "\<not> is_cycle BadFunctionCall"
  "\<not> is_cycle UserException" "\<not> is_cycle (UnableToResolve t p)" "is_cycle (RecursiveResolve p)"
  by (simp_all add: is_cycle_def)

lemma quiet_exec:
  "quiet rec \<Longrightarrow> exec rec st given cap s = Some (Inl e, s') \<Longrightarrow> \<not> is_cycle e"
  by (cases st)
     (auto simp: Context_afterResolve_def Let_def
           split: option.splits sum.splits prod.splits dest: quiet_calls)

lemma quiet_run:
  "quiet rec \<Longrightarrow> run rec body given cap s = Some (Inl e, s') \<Longrightarrow> \<not> is_cycle e"
proof (induction body arbitrary: s)
  case Nil
  then show ?case by simp
next
  case (Cons st body)
  then show ?case
    by (auto split: option.splits sum.splits prod.splits dest: quiet_exec)
qed

lemma setConcreteType_error:
  "setConcreteType c slc = Inl e \<Longrightarrow> e = BindingIssue"
  by (cases "(c, slc)" rule: setConcreteType.cases) auto

lemma quiet_construct:
  "quiet rec \<Longrightarrow> construct rec b c slc s = Some (Inl e, s') \<Longrightarrow> \<not> is_cycle e"
  by (cases c)
     (auto simp: Let_def
           split: option.splits sum.splits prod.splits if_splits
           dest: quiet_run quiet_calls setConcreteType_error)

lemma quiet_get:
  "quiet rec \<Longrightarrow> get rec b slc s = Some (Inl e, s') \<Longrightarrow> \<not> is_cycle e"
  by (auto simp: get_def
           split: option.splits sum.splits prod.splits getter.splits
           dest: quiet_construct)

lemma quiet_typed_tryResolve:
  "quiet rec \<Longrightarrow> TypedServiceLocator_tryResolve rec m nm slc s = Some (Inl e, s') \<Longrightarrow> \<not> is_cycle e"
  by (auto simp: TypedServiceLocator_tryResolve_def split: option.splits dest: quiet_get)

lemma quiet_resolve:
  "quiet rec \<Longrightarrow> ServiceLocator_resolve rec t chain slc s = Some (Inl e, s') \<Longrightarrow> \<not> is_cycle e"
proof (induction chain arbitrary: slc s)
  case Nil
  then show ?case by auto
next
  case (Cons l ps)
  then show ?case
    by (auto simp: unable_def
             split: option.splits sum.splits prod.splits if_splits
             dest: quiet_typed_tryResolve)
qed

lemma quiet_tryResolve:
  "quiet rec \<Longrightarrow> ServiceLocator_tryResolve rec t chain slc s = Some (Inl e, s') \<Longrightarrow> \<not> is_cycle e"
proof (induction chain arbitrary: slc s)
  case Nil
  then show ?case by auto
next
  case (Cons l ps)
  then show ?case
    by (auto
             split: option.splits sum.splits prod.splits if_splits
             dest: quiet_typed_tryResolve)
qed

lemma quiet_drain:
  "quiet rec \<Longrightarrow> drain rec r l i s = Some (Inl e, s') \<Longrightarrow> \<not> is_cycle e"
  by (auto simp: drain_def Let_def
           split: option.splits sum.splits prod.splits if_splits callback.splits
           dest: quiet_run quiet_calls)

lemma quiet_afterResolve:
  "quiet rec \<Longrightarrow> afterResolve rec this s = Some (Inl e, s') \<Longrightarrow> \<not> is_cycle e"
  by (cases this)
     (auto split: option.splits sum.splits prod.splits dest: quiet_drain)


subsection \<open>The order of a name map\<close>

lemma set_map_insert: "x \<in> set (map_insert k v m) \<Longrightarrow> x = (k, v) \<or> x \<in> set m"
  by (induction m) (auto split: if_splits)

lemma set_alist_update:
  "x \<in> set (AList.update k v al) \<Longrightarrow> x = (k, v) \<or> x \<in> set al"
  by (induction al) (auto split: if_splits)

lemma sorted_map_insert:
  "sorted_wrt (<) (map fst m) \<Longrightarrow> sorted_wrt (<) (map fst (map_insert k v m))"
proof (induction m)
  case Nil
  then show ?case by simp
next
  case (Cons a m)
  obtain k' v' where a: "a = (k', v')" by (cases a)
  have "\<forall>x \<in> set (map_insert k v m). k' < fst x" if "k' < k"
    using that Cons.prems a by (auto dest!: set_map_insert)
  then show ?case
    using Cons a by auto
qed

lemma by_name_sorted:
  assumes "sorted_wrt (<) (map fst m)"
  shows "by_name m = map snd m"
proof -
  have d: "distinct (map fst m)" and st: "sorted (map fst m)"
    using assms by (simp_all add: strict_sorted_iff)
  have "sorted_list_of_set (fst ` set m) = map fst m"
    using d st by (metis list.set_map sorted_list_of_set.idem_if_sorted_distinct)
  moreover have "map (\<lambda>k. the (map_of m k)) (map fst m) = map snd m"
    using d by (induction m) (auto simp: image_iff)
  ultimately show ?thesis by (simp add: by_name_def)
qed

lemma ordered_lookup:
  "ordered s \<Longrightarrow> getTypedServiceLocator s l t = Some m \<Longrightarrow> sorted_wrt (<) (map fst m)"
  by (auto simp: ordered_def getTypedServiceLocator_def deref_def
           split: option.splits if_splits dest!: map_of_SomeD)
     (metis nth_mem snd_conv)

lemma enumerated_ordered:
  "ordered s \<Longrightarrow>
   concat (map (\<lambda>l. case getTypedServiceLocator s l t of None \<Rightarrow> [] | Some m \<Rightarrow> map snd m) chain)
     = enumerated s t chain"
  unfolding enumerated_def
  by (induction chain) (auto split: option.splits dest: ordered_lookup simp: by_name_sorted)

lemma ordered_init: "ordered init"
  by (simp add: ordered_def init_def)

lemma ordered_update:
  assumes "ordered s" and "l < length (locators s)"
      and "\<forall>tm \<in> set (typed_locators loc'). sorted_wrt (<) (map fst (snd tm))"
  shows "ordered (s\<lparr>locators := (locators s)[l := loc'], bindings := bs\<rparr>)"
  using assms by (auto simp: ordered_def dest!: set_update_subset_insert [THEN subsetD])

lemma ordered_bind: "ordered s \<Longrightarrow> ordered (snd (bind l t nm s))"
proof (cases "l < length (locators s)")
  case False
  assume "ordered s"
  with False show ?thesis by (simp add: bind_def)
next
  case True
  assume o: "ordered s"
  let ?loc = "locators s ! l"
  have loc: "\<forall>tm \<in> set (typed_locators ?loc). sorted_wrt (<) (map fst (snd tm))"
    using o True by (auto simp: ordered_def)
  have m: "sorted_wrt (<) (map fst (case map_of (typed_locators ?loc) t of None \<Rightarrow> [] | Some m \<Rightarrow> m))"
    using loc by (auto split: option.splits dest!: map_of_SomeD)
  have "\<forall>tm \<in> set (AList.update t (map_insert nm (length (bindings s))
             (case map_of (typed_locators ?loc) t of None \<Rightarrow> [] | Some m \<Rightarrow> m)) (typed_locators ?loc)).
          sorted_wrt (<) (map fst (snd tm))"
    using loc sorted_map_insert [OF m]
    by (auto dest!: set_alist_update)
  then show ?thesis
    using True o by (simp add: bind_def Let_def ordered_update)
qed


lemma ordered_create: "ordered s \<Longrightarrow> ordered (snd (create s))"
  by (auto simp: ordered_def create_def new_root_def Let_def)

lemma ordered_enter: "ordered s \<Longrightarrow> ordered (snd (enter l s))"
  by (auto simp: ordered_def enter_def new_root_def Let_def split: option.splits)


subsection \<open>bind\<close>

lemma bind_fails_iff:
  assumes "l < length (locators s)"
  shows "(\<exists>e. fst (bind l t nm s) = Inl e) = (own_binding s l t nm \<noteq> None)"
    and "(fst (bind l t nm s) = Inl (DuplicateBinding t nm)) = (own_binding s l t nm \<noteq> None)"
  using assms
  by (auto simp: bind_def own_binding_def getTypedServiceLocator_def
      TypedServiceLocator_canResolve_def Let_def split: option.splits)

lemma bind_registers:
  assumes "l < length (locators s)" and "own_binding s l t nm = None"
  shows "fst (bind l t nm s) = Inr (length (bindings s))"
    and "own_binding (snd (bind l t nm s)) l t nm = Some (length (bindings s))"
  using assms
  by (auto simp: bind_def own_binding_def getTypedServiceLocator_def
      TypedServiceLocator_canResolve_def Let_def update_conv' map_of_map_insert split: option.splits)


subsection \<open>Scenario states\<close>

lemma sc_can_eq: "sc_can =
  \<lparr>locators =
    [\<lparr>parents = [], typed_locators = [(''ITest'', [(''Y'', 0)])], eagerBindings = [], root_context = 0\<rparr>,
     \<lparr>parents = [0], typed_locators = [(''ITest'', [(''X'', 1)])], eagerBindings = [], root_context = 1\<rparr>],
   bindings =
    [\<lparr>iface = ''ITest'', fnGet = Creator (ToNoDependancy ''TestA''), fnCreate = ToNoDependancy ''TestA'', singleton = Null, owner = 0\<rparr>,
     \<lparr>iface = ''ITest'', fnGet = Creator (ToNoDependancy ''TestB''), fnCreate = ToNoDependancy ''TestB'', singleton = Null, owner = 1\<rparr>],
   queues = [None, None], objects = [], trace = []\<rparr>"
  by (simp add: sc_can_def setup_defs)

lemma sc_order_eq: "sc_order =
  \<lparr>locators =
    [\<lparr>parents = [], typed_locators = [(''ITest'', [(''A'', 1), (''B'', 0)])], eagerBindings = [], root_context = 0\<rparr>],
   bindings =
    [\<lparr>iface = ''ITest'', fnGet = Creator (ToNoDependancy ''TestB''), fnCreate = ToNoDependancy ''TestB'', singleton = Null, owner = 0\<rparr>,
     \<lparr>iface = ''ITest'', fnGet = Creator (ToNoDependancy ''TestA''), fnCreate = ToNoDependancy ''TestA'', singleton = Null, owner = 0\<rparr>],
   queues = [None], objects = [], trace = []\<rparr>"
  by (simp add: sc_order_def setup_defs)

lemma sc_nested_eq: "sc_nested =
  \<lparr>locators =
    [\<lparr>parents = [], typed_locators = [(''ITest'', [([], 0)])], eagerBindings = [], root_context = 0\<rparr>,
     \<lparr>parents = [0], typed_locators = [(''ITest'', [([], 1)])], eagerBindings = [], root_context = 1\<rparr>,
     \<lparr>parents = [0], typed_locators = [], eagerBindings = [], root_context = 2\<rparr>],
   bindings =
    [\<lparr>iface = ''ITest'', fnGet = Creator (To ''TestA'' []), fnCreate = To ''TestA'' [], singleton = Null, owner = 0\<rparr>,
     \<lparr>iface = ''ITest'', fnGet = Creator (To ''TestB'' []), fnCreate = To ''TestB'' [], singleton = Null, owner = 1\<rparr>],
   queues = [None, None, None], objects = [], trace = []\<rparr>"
  by (simp add: sc_nested_def setup_defs)

lemma sc_cycle_eq: "sc_cycle =
  \<lparr>locators =
    [\<lparr>parents = [], typed_locators = [(''A'', [(''x'', 0), (''y'', 1)]), (''B'', [([], 2)])],
      eagerBindings = [], root_context = 0\<rparr>],
   bindings =
    [\<lparr>iface = ''A'', fnGet = Creator (To ''AImpl'' [Resolve Given ''A'' ''y'']),
      fnCreate = To ''AImpl'' [Resolve Given ''A'' ''y''], singleton = Null, owner = 0\<rparr>,
     \<lparr>iface = ''A'', fnGet = Creator (ToNoDependancy ''AImpl''), fnCreate = ToNoDependancy ''AImpl'', singleton = Null, owner = 0\<rparr>,
     \<lparr>iface = ''B'', fnGet = Creator (To ''BImpl'' [Resolve Given ''B'' []]),
      fnCreate = To ''BImpl'' [Resolve Given ''B'' []], singleton = Null, owner = 0\<rparr>],
   queues = [None], objects = [], trace = []\<rparr>"
  by (simp add: sc_cycle_def setup_defs)

lemma sc_null_eq: "sc_null =
  \<lparr>locators =
    [\<lparr>parents = [], typed_locators = [(''ITest'', [([], 0)])], eagerBindings = [], root_context = 0\<rparr>,
     \<lparr>parents = [0], typed_locators = [(''ITest'', [([], 1)])], eagerBindings = [], root_context = 1\<rparr>,
     \<lparr>parents = [0], typed_locators = [], eagerBindings = [], root_context = 2\<rparr>],
   bindings =
    [\<lparr>iface = ''ITest'', fnGet = Creator (ToNoDependancy ''TestA''), fnCreate = ToNoDependancy ''TestA'', singleton = Null, owner = 0\<rparr>,
     \<lparr>iface = ''ITest'', fnGet = Instance Null, fnCreate = Unset, singleton = Null, owner = 1\<rparr>],
   queues = [None, None, None], objects = [], trace = []\<rparr>"
  by (simp add: sc_null_def setup_defs)

lemma sc_try_eq: "sc_try =
  \<lparr>locators =
    [\<lparr>parents = [], typed_locators = [(''TestC'', [([], 0)]), (''Bad'', [([], 1)])],
      eagerBindings = [], root_context = 0\<rparr>],
   bindings =
    [\<lparr>iface = ''TestC'', fnGet = Creator (To ''TestC'' [TryResolve Given ''ITest'' []]),
      fnCreate = To ''TestC'' [TryResolve Given ''ITest'' []], singleton = Null, owner = 0\<rparr>,
     \<lparr>iface = ''Bad'', fnGet = Creator (To ''Bad'' [Throw]), fnCreate = To ''Bad'' [Throw], singleton = Null, owner = 0\<rparr>],
   queues = [None], objects = [], trace = []\<rparr>"
  by (simp add: sc_try_def setup_defs)

lemma quiet_stuck: "quiet stuck"
  by (simp add: quiet_def stuck_def)

section \<open>The effect of a resolution on the state\<close>

lemma steady_refl [simp]: "steady s s"
  by (simp add: steady_def unchanged_or_cached_def)

lemma unchanged_or_cached_mono:
  "unchanged_or_cached evs b bd bd' \<Longrightarrow> set evs \<subseteq> set evs' \<Longrightarrow> unchanged_or_cached evs' b bd bd'"
  by (auto simp: unchanged_or_cached_def)

lemma unchanged_or_cached_trans:
  "unchanged_or_cached evs1 b bd bd1 \<Longrightarrow> unchanged_or_cached evs2 b bd1 bd2 \<Longrightarrow>
   unchanged_or_cached (evs1 @ evs2) b bd bd2"
  by (auto simp: unchanged_or_cached_def)

lemma steady_trans: "steady s s1 \<Longrightarrow> steady s1 s2 \<Longrightarrow> steady s s2"
proof -
  assume a: "steady s s1" and b: "steady s1 s2"
  from a obtain objs evs where 1: "locators s1 = locators s"
    "length (bindings s1) = length (bindings s)" "length (queues s) \<le> length (queues s1)"
    "objects s1 = objects s @ objs" "trace s1 = trace s @ evs"
    "\<forall>b < length (bindings s). unchanged_or_cached evs b (bindings s ! b) (bindings s1 ! b)"
    unfolding steady_def by blast
  from b obtain objs' evs' where 2: "locators s2 = locators s1"
    "length (bindings s2) = length (bindings s1)" "length (queues s1) \<le> length (queues s2)"
    "objects s2 = objects s1 @ objs'" "trace s2 = trace s1 @ evs'"
    "\<forall>b < length (bindings s1). unchanged_or_cached evs' b (bindings s1 ! b) (bindings s2 ! b)"
    unfolding steady_def by blast
  have "\<forall>b < length (bindings s).
          unchanged_or_cached (evs @ evs') b (bindings s ! b) (bindings s2 ! b)"
    using 1(2,6) 2(6) by (auto intro: unchanged_or_cached_trans)
  moreover have "trace s2 = trace s @ (evs @ evs')" "objects s2 = objects s @ (objs @ objs')"
    using 1 2 by simp_all
  ultimately show ?thesis
    unfolding steady_def using 1(1,2,3) 2(1,2,3) by (metis le_trans)
qed

lemma steady_trace [simp]: "steady s (s\<lparr>trace := trace s @ evs\<rparr>)"
  by (simp add: steady_def unchanged_or_cached_def)

lemma steady_objects [simp]: "steady s (s\<lparr>objects := objects s @ objs\<rparr>)"
  by (simp add: steady_def unchanged_or_cached_def)

lemma steady_queues_upd [simp]: "steady s (s\<lparr>queues := (queues s)[r := q]\<rparr>)"
  by (simp add: steady_def unchanged_or_cached_def)

lemma steady_queues_app [simp]: "steady s (s\<lparr>queues := queues s @ qs\<rparr>)"
  by (simp add: steady_def unchanged_or_cached_def)

lemma steady_step: "steady s s1 \<Longrightarrow> steady s1 s2 \<Longrightarrow> steady s s2"
  by (rule steady_trans)

lemma steady_Context_afterResolve:
  "Context_afterResolve this cb s = (r, s') \<Longrightarrow> steady s s'"
  by (auto simp: Context_afterResolve_def Let_def steady_def unchanged_or_cached_def
           split: option.splits)

lemma sound_resolve:
  "call_resolve rec this t nm s = Some (r, s') \<Longrightarrow> sound rec \<Longrightarrow> steady s s'"
  unfolding sound_def by fast

lemma sound_tryResolve:
  "call_tryResolve rec this t nm s = Some (r, s') \<Longrightarrow> sound rec \<Longrightarrow> steady s s'"
  unfolding sound_def by fast

lemma sound_resolveAll:
  "call_resolveAll rec this t s = Some (r, s') \<Longrightarrow> sound rec \<Longrightarrow> steady s s'"
  unfolding sound_def by fast

lemma sound_drain:
  "call_drain rec r l i s = Some (x, s') \<Longrightarrow> sound rec \<Longrightarrow> steady s s'"
  unfolding sound_def by fast

lemmas sound_calls = sound_resolve sound_tryResolve sound_resolveAll sound_drain

lemma steady_exec:
  "exec rec st given cap s = Some (r, s') \<Longrightarrow> sound rec \<Longrightarrow> steady s s'"
  by (cases st)
     (auto split: option.splits sum.splits prod.splits
           dest: sound_calls steady_Context_afterResolve)

lemma steady_run:
  "run rec body given cap s = Some (r, s') \<Longrightarrow> sound rec \<Longrightarrow> steady s s'"
proof (induction body arbitrary: s)
  case Nil
  then show ?case by simp
next
  case (Cons st body)
  then show ?case
    by (auto split: option.splits sum.splits prod.splits
             dest!: steady_exec intro: steady_trans)
qed

lemma steady_after_trace: "steady (s\<lparr>trace := trace s @ evs\<rparr>) s' \<Longrightarrow> steady s s'"
  using steady_trans steady_trace by blast

lemma steady_then_objects: "steady s s1 \<Longrightarrow> steady s (s1\<lparr>objects := objects s1 @ objs\<rparr>)"
  using steady_trans steady_objects by blast

lemma steady_then_queues: "steady s s1 \<Longrightarrow> steady s (s1\<lparr>queues := (queues s1)[r := q]\<rparr>)"
  using steady_trans steady_queues_upd by blast

lemma steady_trace_objects [simp]:
  "steady s (s\<lparr>trace := trace s @ evs, objects := objects s @ objs\<rparr>)"
  by (simp add: steady_def unchanged_or_cached_def)

lemma steady_traceD: "steady s s' \<Longrightarrow> \<exists>evs. trace s' = trace s @ evs"
  by (auto simp: steady_def)

lemma steady_construct:
  "construct rec b c slc s = Some (r, s') \<Longrightarrow> sound rec \<Longrightarrow> steady s s'"
  by (cases c)
     (auto simp: Let_def split: option.splits sum.splits prod.splits if_splits
           intro!: steady_then_objects
           dest!: steady_run sound_resolve
           intro: steady_after_trace)

lemma construct_logs:
  "construct rec b c slc s = Some (Inr x, s') \<Longrightarrow> sound rec \<Longrightarrow>
   \<exists>evs. trace s' = trace s @ Construct b # evs"
  by (cases c)
     (auto simp: Let_def split: option.splits sum.splits prod.splits if_splits
           dest!: steady_run sound_resolve steady_traceD)

lemma steady_cache:
  assumes st: "steady s s1" and b: "deref (bindings s) b = Some bd" and f: "fnGet bd = SingletonFirst"
      and tr: "trace s1 = trace s @ Construct b # evs0"
  shows "steady s (upd_binding b (\<lambda>bd. bd\<lparr>singleton := p, fnGet := SingletonCached\<rparr>) s1)"
proof -
  from st obtain objs evs where 1: "locators s1 = locators s"
    "length (bindings s1) = length (bindings s)" "length (queues s) \<le> length (queues s1)"
    "objects s1 = objects s @ objs" "trace s1 = trace s @ evs"
    "\<forall>b < length (bindings s). unchanged_or_cached evs b (bindings s ! b) (bindings s1 ! b)"
    unfolding steady_def by blast
  have lb: "b < length (bindings s)" and bd: "bd = bindings s ! b"
    using b by (auto simp: deref_def split: if_splits)
  have c: "Construct b \<in> set evs" using tr 1(5) by auto
  let ?s2 = "upd_binding b (\<lambda>bd. bd\<lparr>singleton := p, fnGet := SingletonCached\<rparr>) s1"
  have "unchanged_or_cached evs b' (bindings s ! b') (bindings ?s2 ! b')"
    if "b' < length (bindings s)" for b'
  proof (cases "b' = b")
    case False
    then show ?thesis using 1(6) that by (simp add: upd_binding_def)
  next
    case True
    have "unchanged_or_cached evs b (bindings s ! b) (bindings s1 ! b)" using 1(6) lb by simp
    then show ?thesis
      using True lb 1(2) f bd c by (auto simp: upd_binding_def unchanged_or_cached_def)
  qed
  then show ?thesis
    unfolding steady_def using 1 by (auto simp: upd_binding_def)
qed

lemma construct_success:
  "construct rec b c slc s = Some (Inr x, s') \<Longrightarrow> sound rec \<Longrightarrow>
   steady s s' \<and> (\<exists>evs. trace s' = trace s @ Construct b # evs)"
  using steady_construct construct_logs by blast

lemma steady_get:
  "get rec b slc s = Some (r, s') \<Longrightarrow> sound rec \<Longrightarrow> steady s s'"
  unfolding get_def
  by (auto split: option.splits sum.splits prod.splits getter.splits
           dest: steady_construct
           dest!: construct_success intro: steady_cache)

lemma steady_typed_tryResolve:
  "TypedServiceLocator_tryResolve rec m nm slc s = Some (r, s') \<Longrightarrow> sound rec \<Longrightarrow> steady s s'"
  by (auto simp: TypedServiceLocator_tryResolve_def split: option.splits dest: steady_get)

lemma steady_resolve:
  "ServiceLocator_resolve rec t chain slc s = Some (r, s') \<Longrightarrow> sound rec \<Longrightarrow> steady s s'"
proof (induction chain arbitrary: slc s)
  case Nil
  then show ?case by auto
next
  case (Cons l ps)
  then show ?case
    by (auto split: option.splits sum.splits prod.splits if_splits
             dest!: steady_typed_tryResolve intro: steady_trans)
qed

lemma steady_tryResolve:
  "ServiceLocator_tryResolve rec t chain slc s = Some (r, s') \<Longrightarrow> sound rec \<Longrightarrow> steady s s'"
proof (induction chain arbitrary: slc s)
  case Nil
  then show ?case by auto
next
  case (Cons l ps)
  then show ?case
    by (auto split: option.splits sum.splits prod.splits if_splits
             dest!: steady_typed_tryResolve intro: steady_trans)
qed

lemma steady_typed_visitAll:
  "TypedServiceLocator_visitAll rec t bs this all s = Some (r, s') \<Longrightarrow> sound rec \<Longrightarrow> steady s s'"
proof (induction bs arbitrary: all s)
  case Nil
  then show ?case by auto
next
  case (Cons b bs)
  then show ?case
    by (auto simp: Let_def split: option.splits sum.splits prod.splits if_splits
             dest!: steady_get intro: steady_trans)
qed

lemma steady_visitAll:
  "ServiceLocator_visitAll rec t chain this all s = Some (r, s') \<Longrightarrow> sound rec \<Longrightarrow> steady s s'"
proof (induction chain arbitrary: all s)
  case Nil
  then show ?case by auto
next
  case (Cons l ps)
  then show ?case
    by (auto split: option.splits sum.splits prod.splits if_splits
             dest!: steady_typed_visitAll intro: steady_trans)
qed

lemma steady_new_root: "steady s (snd (new_root s))"
  by (simp add: new_root_def)

lemma steady_after_root:
  "steady (s\<lparr>queues := queues s @ qs, trace := trace s @ evs\<rparr>) s' \<Longrightarrow> steady s s'"
proof -
  have "steady s (s\<lparr>queues := queues s @ qs, trace := trace s @ evs\<rparr>)"
    by (simp add: steady_def unchanged_or_cached_def)
  then show "steady (s\<lparr>queues := queues s @ qs, trace := trace s @ evs\<rparr>) s' \<Longrightarrow> steady s s'"
    by (rule steady_trans)
qed

lemma steady_drain:
  "drain rec r l i s = Some (x, s') \<Longrightarrow> sound rec \<Longrightarrow> steady s s'"
  unfolding drain_def new_root_def
  by (auto simp: Let_def split: option.splits sum.splits prod.splits if_splits callback.splits
           dest!: steady_run sound_drain
           intro: steady_after_root steady_trans)

lemma steady_afterResolve:
  "afterResolve rec this s = Some (x, s') \<Longrightarrow> sound rec \<Longrightarrow> steady s s'"
  by (cases this)
     (auto split: option.splits sum.splits prod.splits
           dest!: steady_drain intro!: steady_then_queues)

lemma steady_Context_resolve:
  "Context_resolve rec this t nm s = Some (r, s') \<Longrightarrow> sound rec \<Longrightarrow> steady s s'"
  unfolding Context_resolve_def
  by (auto simp: Let_def split: option.splits sum.splits prod.splits
           dest!: steady_resolve steady_afterResolve intro: steady_trans)

lemma steady_Context_tryResolve:
  "Context_tryResolve rec this t nm s = Some (r, s') \<Longrightarrow> sound rec \<Longrightarrow> steady s s'"
  unfolding Context_tryResolve_def
  by (auto simp: Let_def split: option.splits sum.splits prod.splits
           dest!: steady_tryResolve steady_afterResolve intro: steady_trans)

lemma steady_Context_resolveAll:
  "Context_resolveAll rec this t s = Some (r, s') \<Longrightarrow> sound rec \<Longrightarrow> steady s s'"
  unfolding Context_resolveAll_def
  by (auto simp: Let_def split: option.splits sum.splits prod.splits
           dest!: steady_visitAll steady_afterResolve intro: steady_trans)

lemma soundI:
  assumes "\<And>this t nm s r s'. call_resolve rec this t nm s = Some (r, s') \<Longrightarrow> steady s s'"
      and "\<And>this t nm s r s'. call_tryResolve rec this t nm s = Some (r, s') \<Longrightarrow> steady s s'"
      and "\<And>this t s r s'. call_resolveAll rec this t s = Some (r, s') \<Longrightarrow> steady s s'"
      and "\<And>r l k s u s'. call_drain rec r l k s = Some (u, s') \<Longrightarrow> steady s s'"
  shows "sound rec"
  unfolding sound_def using assms by blast

lemma sound_engine: "sound (engine n)"
proof (induction n)
  case 0
  show ?case by (simp add: sound_def stuck_def)
next
  case (Suc n)
  show ?case
  proof (rule soundI)
    show "steady s s'" if "call_resolve (engine (Suc n)) this t nm s = Some (r, s')"
      for this t nm s r s'
      using that Suc by (simp add: steady_Context_resolve)
    show "steady s s'" if "call_tryResolve (engine (Suc n)) this t nm s = Some (r, s')"
      for this t nm s r s'
      using that Suc by (simp add: steady_Context_tryResolve)
    show "steady s s'" if "call_resolveAll (engine (Suc n)) this t s = Some (r, s')"
      for this t s r s'
      using that Suc by (simp add: steady_Context_resolveAll)
    show "steady s s'" if "call_drain (engine (Suc n)) r l k s = Some (u, s')"
      for r l k s u s'
      using that Suc by (simp add: steady_drain)
  qed
qed

lemma steady_new_events:
  assumes "steady s s'"
  shows "trace s' = trace s @ new_events s s'"
    and "b < length (bindings s) \<Longrightarrow>
         unchanged_or_cached (new_events s s') b (bindings s ! b) (bindings s' ! b)"
  using assms by (auto simp: steady_def new_events_def)

lemma steady_cached: "steady s s' \<Longrightarrow> cached s b p \<Longrightarrow> cached s' b p"
  by (auto simp: cached_def deref_def steady_def unchanged_or_cached_def split: if_splits)

lemma get_cached: "cached s b p \<Longrightarrow> get rec b slc s = Some (Inr (p, slc), s)"
  by (auto simp: cached_def get_def split: option.splits)

text \<open>What a call of the construction function leaves behind, from the entry event on.\<close>

lemma steady_objects_after_trace [simp]:
  "steady (s\<lparr>trace := tr\<rparr>) (s\<lparr>trace := tr, objects := objects s @ objs\<rparr>)"
  by (simp add: steady_def unchanged_or_cached_def)

lemma construct_inner:
  "construct rec b c slc s = Some (r, s') \<Longrightarrow> sound rec \<Longrightarrow> c \<noteq> Unset \<Longrightarrow>
   steady (s\<lparr>trace := trace s @ [Construct b]\<rparr>) s'"
  by (cases c)
     (auto simp: Let_def split: option.splits sum.splits prod.splits if_splits
           intro!: steady_then_objects
           dest!: steady_run sound_resolve)

lemma get_uninitialized:
  assumes u: "uninitialized s b" and g: "get rec b slc s = Some (r, s')" and s: "sound rec"
  shows "\<exists>evs. new_events s s' = Construct b # evs
           \<and> (case r of
                 Inr (p, slc1) \<Rightarrow> cached s' b p
               | Inl e \<Rightarrow> Construct b \<notin> set evs \<longrightarrow> bindings s' ! b = bindings s ! b)"
proof -
  from u obtain bd where bd: "deref (bindings s) b = Some bd" "fnGet bd = SingletonFirst"
    "fnCreate bd \<noteq> Unset"
    by (auto simp: uninitialized_def split: option.splits)
  then have lb: "b < length (bindings s)" and bdb: "bd = bindings s ! b"
    by (auto simp: deref_def split: if_splits)
  let ?s0 = "s\<lparr>trace := trace s @ [Construct b]\<rparr>"
  from g bd obtain rc s1 where c: "construct rec b (fnCreate bd) slc s = Some (rc, s1)"
    by (auto simp: get_def split: option.splits)
  have st: "steady ?s0 s1" using construct_inner [OF c s bd(3)] .
  then obtain evs where evs: "trace s1 = trace ?s0 @ evs"
    "unchanged_or_cached evs b (bindings ?s0 ! b) (bindings s1 ! b)"
    "length (bindings s1) = length (bindings s)"
    using lb by (auto simp: steady_def)
  show ?thesis
  proof (cases rc)
    case (Inl e)
    then have "r = Inl e" "s' = s1" using g bd c by (auto simp: get_def)
    then show ?thesis
      using evs bdb by (auto simp: new_events_def unchanged_or_cached_def)
  next
    case (Inr x)
    obtain p slc1 where x: "x = (p, slc1)" by (cases x)
    have "r = Inr (p, slc1)"
         "s' = upd_binding b (\<lambda>bd. bd\<lparr>singleton := p, fnGet := SingletonCached\<rparr>) s1"
      using g bd c Inr x by (auto simp: get_def)
    then show ?thesis
      using evs lb by (auto simp: new_events_def cached_def upd_binding_def)
  qed
qed

lemma steady_eagerBind:
  "eagerBind rec b slc s = Some (r, s') \<Longrightarrow> sound rec \<Longrightarrow> steady s s'"
  by (auto simp: eagerBind_def split: option.splits sum.splits prod.splits dest: steady_get)

lemma steady_eagerBindAll:
  "eagerBindAll rec bs slc s = Some (r, s') \<Longrightarrow> sound rec \<Longrightarrow> steady s s'"
proof (induction bs arbitrary: s)
  case Nil
  then show ?case by auto
next
  case (Cons b bs)
  then show ?case
    by (auto split: option.splits sum.splits prod.splits
             dest!: steady_eagerBind intro: steady_trans)
qed

lemma steady_initialized: "steady s s' \<Longrightarrow> initialized s b \<Longrightarrow> initialized s' b"
  by (auto simp: initialized_def dest: steady_cached)

lemma eagerBind_initializes:
  assumes "eagerBind rec b slc s = Some (Inr u, s')" and "sound rec"
      and "uninitialized s b \<or> initialized s b"
  shows "initialized s' b"
proof -
  from assms(3) obtain bd where bd: "deref (bindings s) b = Some bd"
    by (auto simp: uninitialized_def initialized_def cached_def split: option.splits)
  with assms(1) obtain p slc1 where g: "get rec b (Child slc (iface bd) [] None) s = Some (Inr (p, slc1), s')"
    by (auto simp: eagerBind_def split: option.splits sum.splits prod.splits)
  show ?thesis
  proof (cases "uninitialized s b")
    case True
    from get_uninitialized [OF True g assms(2)] show ?thesis
      by (auto simp: initialized_def)
  next
    case False
    with assms(3) have "initialized s b" by simp
    then show ?thesis
      using steady_get [OF g assms(2)] by (rule steady_initialized [rotated])
  qed
qed

lemma steady_uninitialized_or:
  "steady s s' \<Longrightarrow> uninitialized s b \<or> initialized s b \<Longrightarrow> uninitialized s' b \<or> initialized s' b"
  by (auto simp: uninitialized_def initialized_def cached_def deref_def steady_def
                 unchanged_or_cached_def split: if_splits)

lemma eagerBindAll_initializes:
  "eagerBindAll rec bs slc s = Some (Inr u, s') \<Longrightarrow> sound rec \<Longrightarrow>
   b \<in> set bs \<Longrightarrow> uninitialized s b \<or> initialized s b \<Longrightarrow> initialized s' b"
proof (induction bs arbitrary: s)
  case Nil
  then show ?case by simp
next
  case (Cons a bs)
  from Cons.prems(1) obtain s1 where 1: "eagerBind rec a slc s = Some (Inr (), s1)"
    and 2: "eagerBindAll rec bs slc s1 = Some (Inr u, s')"
    by (auto split: option.splits sum.splits prod.splits)
  have st1: "steady s s1" using steady_eagerBind [OF 1 Cons.prems(2)] .
  have st2: "steady s1 s'" using steady_eagerBindAll [OF 2 Cons.prems(2)] .
  have or1: "uninitialized s1 b \<or> initialized s1 b"
    using Cons.prems(4) st1 by (rule steady_uninitialized_or [rotated])
  show ?case
  proof (cases "a = b")
    case True
    then have "initialized s1 b"
      using eagerBind_initializes [OF 1 Cons.prems(2)] Cons.prems(4) by simp
    then show ?thesis using st2 by (rule steady_initialized [rotated])
  next
    case False
    then have "b \<in> set bs" using Cons.prems(3) by simp
    then show ?thesis using Cons.IH [OF 2 Cons.prems(2) _ or1] by simp
  qed
qed

lemma initialized_was_constructed:
  assumes "steady s s'" and "uninitialized s b" and "initialized s' b"
  shows "Construct b \<in> set (new_events s s')"
proof -
  from assms(2) have lb: "b < length (bindings s)"
    by (auto simp: uninitialized_def deref_def split: if_splits)
  from steady_new_events(2) [OF assms(1) lb] assms(2,3) assms(1) show ?thesis
    by (auto simp: unchanged_or_cached_def uninitialized_def initialized_def cached_def
                   deref_def steady_def split: if_splits)
qed

lemma locators_update_irrelevant [simp]:
  "cached (s\<lparr>locators := x\<rparr>) b p = cached s b p"
  "initialized (s\<lparr>locators := x\<rparr>) b = initialized s b"
  "uninitialized (s\<lparr>locators := x\<rparr>) b = uninitialized s b"
  "new_events s0 (s\<lparr>locators := x\<rparr>) = new_events s0 s"
  by (simp_all add: cached_def initialized_def uninitialized_def new_events_def)

lemma getContext_noop:
  "deref (locators s) l = Some loc \<Longrightarrow> eagerBindings loc = [] \<Longrightarrow>
   getContext rec l s = Some (Inr (Root (root_context loc) l), s)"
  by (simp add: getContext_def)

lemma getContext_flushes:
  assumes g: "getContext (engine n) l s = Some (Inr ctx, s')"
  shows "\<exists>loc loc'. deref (locators s) l = Some loc \<and> deref (locators s') l = Some loc'
           \<and> ctx = Root (root_context loc) l \<and> eagerBindings loc' = []
           \<and> root_context loc' = root_context loc
           \<and> (\<forall>b \<in> set (eagerBindings loc). uninitialized s b \<longrightarrow>
                 initialized s' b \<and> Construct b \<in> set (new_events s s'))
           \<and> (\<forall>b p. cached s b p \<longrightarrow> cached s' b p)"
proof -
  from g obtain loc where loc: "deref (locators s) l = Some loc"
    by (auto simp: getContext_def split: option.splits)
  then have ll: "l < length (locators s)" and locl: "loc = locators s ! l"
    by (auto simp: deref_def split: if_splits)
  show ?thesis
  proof (cases "eagerBindings loc = []")
    case True
    then have "s' = s" "ctx = Root (root_context loc) l"
      using g loc by (auto simp: getContext_def)
    then show ?thesis using loc True by auto
  next
    case False
    with g loc obtain s1 where e: "eagerBindAll (engine n) (eagerBindings loc) (Root (root_context loc) l) s
                                       = Some (Inr (), s1)"
      and s': "s' = s1\<lparr>locators := (locators s1)[l := (locators s1 ! l)\<lparr>eagerBindings := []\<rparr>]\<rparr>"
      and ctx: "ctx = Root (root_context loc) l"
      by (auto simp: getContext_def Let_def split: option.splits sum.splits prod.splits)
    have st: "steady s s1" using steady_eagerBindAll [OF e sound_engine] .
    then have l1: "locators s1 = locators s" by (simp add: steady_def)
    have tr: "new_events s s' = new_events s s1" "bindings s' = bindings s1"
      using s' by (simp_all add: new_events_def)
    have c: "cached s' b p = cached s1 b p" "initialized s' b = initialized s1 b"
            "uninitialized s' b = uninitialized s1 b" for b p
      using tr(2) by (simp_all add: cached_def initialized_def uninitialized_def)
    have init: "initialized s1 b \<and> Construct b \<in> set (new_events s s1)"
      if "b \<in> set (eagerBindings loc)" "uninitialized s b" for b
    proof -
      have i: "initialized s1 b"
        using eagerBindAll_initializes [OF e sound_engine that(1)] that(2) by simp
      then show ?thesis using initialized_was_constructed [OF st that(2)] by simp
    qed
    show ?thesis
      using loc ll l1 ctx s' init locl st
      by (auto dest: steady_cached)
  qed
qed

lemma sc_single_eq: "sc_single =
  \<lparr>locators =
    [\<lparr>parents = [], typed_locators = [(''ITest'', [([], 0)]), (''Bad'', [([], 1)])],
      eagerBindings = [], root_context = 0\<rparr>],
   bindings =
    [\<lparr>iface = ''ITest'', fnGet = SingletonFirst, fnCreate = To ''TestA'' [], singleton = Null, owner = 0\<rparr>,
     \<lparr>iface = ''Bad'', fnGet = SingletonFirst, fnCreate = To ''Bad'' [Throw], singleton = Null, owner = 0\<rparr>],
   queues = [None], objects = [], trace = []\<rparr>"
  by (simp add: sc_single_def setup_defs)

lemma sc_eager_eq: "sc_eager =
  \<lparr>locators =
    [\<lparr>parents = [], typed_locators = [(''TestEager'', [([], 0)])], eagerBindings = [0], root_context = 0\<rparr>],
   bindings =
    [\<lparr>iface = ''TestEager'', fnGet = SingletonFirst, fnCreate = ToNoDependancy ''TestEager'',
      singleton = Null, owner = 0\<rparr>],
   queues = [None], objects = [], trace = []\<rparr>"
  by (simp add: sc_eager_def setup_defs)

section \<open>The after-resolve list during a resolution\<close>

lemma enqueued_simps [simp]:
  "enqueued r [] = []"
  "enqueued r (xs @ ys) = enqueued r xs @ enqueued r ys"
  "enqueued r (Construct b # xs) = enqueued r xs"
  "enqueued r (Run r' cb ctx # xs) = enqueued r xs"
  "enqueued r (Enqueue r' cb # xs) = (if r' = r then cb # enqueued r xs else enqueued r xs)"
  by (simp_all add: enqueued_def)

lemma runs_simps [simp]:
  "runs r [] = []"
  "runs r (xs @ ys) = runs r xs @ runs r ys"
  "runs r (Construct b # xs) = runs r xs"
  "runs r (Enqueue r' cb # xs) = runs r xs"
  "runs r (Run r' cb ctx # xs) = (if r' = r then (cb, ctx) # runs r xs else runs r xs)"
  by (simp_all add: runs_def)

lemma outside_Child [simp]: "outside r (Child p t nm ct)"
  by (simp add: outside_def)

lemma outside_Root [simp]: "outside r (Root r' l) = (r' \<noteq> r)"
  by (simp add: outside_def)

lemma outside_setConcreteType:
  "setConcreteType c slc = Inr slc1 \<Longrightarrow> outside r slc \<Longrightarrow> outside r slc1"
  by (cases "(c, slc)" rule: setConcreteType.cases) auto

lemma apart_refl [simp]: "apart r s s"
  by (simp add: apart_def)

lemma apart_trans: "apart r s s1 \<Longrightarrow> apart r s1 s2 \<Longrightarrow> apart r s s2"
proof -
  assume a: "apart r s s1" and b: "apart r s1 s2"
  show ?thesis
    unfolding apart_def
  proof (intro impI)
    assume u: "unshared r s"
    with a obtain evs where 1: "unshared r s1" "length (queues s) \<le> length (queues s1)"
      "trace s1 = trace s @ evs" "runs r evs = []" "pending s1 r = pending s r @ enqueued r evs"
      unfolding apart_def by blast
    with b obtain evs' where 2: "unshared r s2" "length (queues s1) \<le> length (queues s2)"
      "trace s2 = trace s1 @ evs'" "runs r evs' = []"
      "pending s2 r = pending s1 r @ enqueued r evs'"
      unfolding apart_def by blast
    have "trace s2 = trace s @ (evs @ evs')" "runs r (evs @ evs') = []"
      "pending s2 r = pending s r @ enqueued r (evs @ evs')"
      using 1 2 by simp_all
    then have "\<exists>evs. trace s2 = trace s @ evs \<and> runs r evs = []
                  \<and> pending s2 r = pending s r @ enqueued r evs"
      by blast
    then show "unshared r s2 \<and> length (queues s) \<le> length (queues s2)
      \<and> (\<exists>evs. trace s2 = trace s @ evs \<and> runs r evs = []
             \<and> pending s2 r = pending s r @ enqueued r evs)"
      using 1(2) 2(1,2) by simp
  qed
qed

lemma apart_log:
  "runs r evs = [] \<Longrightarrow> enqueued r evs = [] \<Longrightarrow> apart r s (s\<lparr>trace := trace s @ evs\<rparr>)"
  by (auto simp: apart_def unshared_def pending_def)

lemma apart_after_log:
  "apart r (s\<lparr>trace := trace s @ evs\<rparr>) s' \<Longrightarrow> runs r evs = [] \<Longrightarrow> enqueued r evs = [] \<Longrightarrow>
   apart r s s'"
  using apart_trans apart_log by blast

lemma apart_objects [simp]: "apart r s (s1\<lparr>objects := x\<rparr>) = apart r s s1"
  by (simp add: apart_def unshared_def pending_def)

lemma apart_bindings [simp]: "apart r s (upd_binding b f s1) = apart r s s1"
  by (simp add: apart_def unshared_def pending_def upd_binding_def)

lemma apart_locators [simp]: "apart r s (s1\<lparr>locators := x\<rparr>) = apart r s s1"
  by (simp add: apart_def unshared_def pending_def)

lemma apart_new_root:
  "apart r s (s\<lparr>queues := queues s @ [None], trace := trace s @ evs\<rparr>)"
  if "runs r evs = []" "enqueued r evs = []"
  using that by (auto simp: apart_def unshared_def pending_def deref_def nth_append)

lemma apart_after_root:
  "apart r (s\<lparr>queues := queues s @ [None], trace := trace s @ evs\<rparr>) s' \<Longrightarrow>
   runs r evs = [] \<Longrightarrow> enqueued r evs = [] \<Longrightarrow> apart r s s'"
  using apart_trans apart_new_root by blast

lemma apart_destroy:
  "r' \<noteq> r \<Longrightarrow> apart r s (s\<lparr>queues := (queues s)[r' := None]\<rparr>)"
  by (auto simp: apart_def unshared_def pending_def deref_def dest!: set_update_subset_insert [THEN subsetD])

lemma apart_then_destroy:
  "apart r s s1 \<Longrightarrow> r' \<noteq> r \<Longrightarrow> apart r s (s1\<lparr>queues := (queues s1)[r' := None]\<rparr>)"
  using apart_trans apart_destroy by blast

lemma unshared_nth:
  "unshared r s \<Longrightarrow> i < length (queues s) \<Longrightarrow> queues s ! i = Some cs \<Longrightarrow> cb \<in> set cs \<Longrightarrow>
   outside r (captured cb)"
  unfolding unshared_def by (metis nth_mem option.simps(5))

lemma unshared_update:
  assumes "unshared r s" and "\<forall>cb \<in> set (case q of None \<Rightarrow> [] | Some cs \<Rightarrow> cs). outside r (captured cb)"
  shows "unshared r (s\<lparr>queues := (queues s)[i := q]\<rparr>)"
proof -
  have "\<forall>cb \<in> set (case q' of None \<Rightarrow> [] | Some cs \<Rightarrow> cs). outside r (captured cb)"
    if "q' \<in> set ((queues s)[i := q])" for q'
  proof -
    from that have "q' = q \<or> q' \<in> set (queues s)"
      using set_update_subset_insert [of "queues s" i q] by auto
    then show ?thesis using assms unfolding unshared_def by auto
  qed
  then show ?thesis using assms(1) unfolding unshared_def by simp
qed

lemma unshared_trace [simp]: "unshared r (s\<lparr>trace := x\<rparr>) = unshared r s"
  by (simp add: unshared_def)

lemma pending_trace [simp]: "pending (s\<lparr>trace := x\<rparr>) r = pending s r"
  by (simp add: pending_def)

lemma pending_update:
  "r < length (queues s) \<Longrightarrow>
   pending (s\<lparr>queues := (queues s)[i := q]\<rparr>) r =
     (if i = r then (case q of None \<Rightarrow> [] | Some cs \<Rightarrow> cs) else pending s r)"
  by (auto simp: pending_def deref_def split: option.splits)

lemma apart_Context_afterResolve:
  assumes "Context_afterResolve this cb s = (x, s')" and o: "outside r (captured cb)"
  shows "apart r s s'"
proof (cases "deref (queues s) (root_of this)")
  case None
  then show ?thesis using assms by (simp add: Context_afterResolve_def)
next
  case (Some q)
  let ?i = "root_of this"
  let ?cs = "(case q of None \<Rightarrow> [] | Some cs \<Rightarrow> cs) @ [cb]"
  let ?s1 = "s\<lparr>queues := (queues s)[?i := Some ?cs]\<rparr>"
  have i: "?i < length (queues s)" "queues s ! ?i = q"
    using Some by (auto simp: deref_def split: if_splits)
  have s': "s' = ?s1\<lparr>trace := trace s @ [Enqueue ?i cb]\<rparr>"
    using assms(1) Some by (auto simp: Context_afterResolve_def Let_def)
  show ?thesis
    unfolding apart_def
  proof (intro impI)
    assume u: "unshared r s"
    then have r: "r < length (queues s)" by (simp add: unshared_def)
    have "\<forall>c \<in> set ?cs. outside r (captured c)"
      using u i o by (cases q) (auto dest: unshared_nth)
    then have 1: "unshared r ?s1"
      using u by (intro unshared_update) simp_all
    have old: "?i = r \<Longrightarrow> pending s r = (case q of None \<Rightarrow> [] | Some cs \<Rightarrow> cs)"
      using i by (auto simp: pending_def deref_def split: option.splits)
    have 2: "pending ?s1 r = pending s r @ enqueued r [Enqueue ?i cb]"
      using r old by (simp add: pending_update)
    have "trace s' = trace s @ [Enqueue ?i cb] \<and> runs r [Enqueue ?i cb] = []
            \<and> pending s' r = pending s r @ enqueued r [Enqueue ?i cb]"
      using 2 s' by simp
    then have "\<exists>evs. trace s' = trace s @ evs \<and> runs r evs = []
                  \<and> pending s' r = pending s r @ enqueued r evs"
      by blast
    then show "unshared r s' \<and> length (queues s) \<le> length (queues s')
      \<and> (\<exists>evs. trace s' = trace s @ evs \<and> runs r evs = []
             \<and> pending s' r = pending s r @ enqueued r evs)"
      using 1 s' by simp
  qed
qed

lemma apart_call_resolve:
  "call_resolve rec this t nm s = Some (x, s') \<Longrightarrow> apart_calls r rec \<Longrightarrow> outside r this \<Longrightarrow>
   apart r s s'"
  unfolding apart_calls_def by fast

lemma apart_call_tryResolve:
  "call_tryResolve rec this t nm s = Some (x, s') \<Longrightarrow> apart_calls r rec \<Longrightarrow> outside r this \<Longrightarrow>
   apart r s s'"
  unfolding apart_calls_def by fast

lemma apart_call_resolveAll:
  "call_resolveAll rec this t s = Some (x, s') \<Longrightarrow> apart_calls r rec \<Longrightarrow> outside r this \<Longrightarrow>
   apart r s s'"
  unfolding apart_calls_def by fast

lemma apart_call_drain:
  "call_drain rec r' l k s = Some (x, s') \<Longrightarrow> apart_calls r rec \<Longrightarrow> r' \<noteq> r \<Longrightarrow> apart r s s'"
  unfolding apart_calls_def by fast

lemma drained_call_drain:
  "call_drain rec r l k s = Some (Inr (), s') \<Longrightarrow> apart_calls r rec \<Longrightarrow> unshared r s \<Longrightarrow>
   drained r l k s s'"
  unfolding apart_calls_def by fast

lemma outside_pick: "outside r given \<Longrightarrow> outside r cap \<Longrightarrow> outside r (pick tg given cap)"
  by (cases tg) (simp_all add: pick_def)

lemma apart_exec:
  "exec rec st given cap s = Some (x, s') \<Longrightarrow> apart_calls r rec \<Longrightarrow>
   outside r given \<Longrightarrow> outside r cap \<Longrightarrow> apart r s s'"
  by (cases st)
     (auto split: option.splits sum.splits prod.splits
           dest: apart_call_resolve apart_call_tryResolve apart_call_resolveAll
                 apart_Context_afterResolve
           simp: outside_pick)

lemma apart_run:
  "run rec body given cap s = Some (x, s') \<Longrightarrow> apart_calls r rec \<Longrightarrow>
   outside r given \<Longrightarrow> outside r cap \<Longrightarrow> apart r s s'"
proof (induction body arbitrary: s)
  case Nil
  then show ?case by simp
next
  case (Cons st body)
  then show ?case
    by (auto split: option.splits sum.splits prod.splits
             dest!: apart_exec intro: apart_trans)
qed

lemma apart_construct:
  "construct rec b c slc s = Some (x, s') \<Longrightarrow> apart_calls r rec \<Longrightarrow> outside r slc \<Longrightarrow>
   apart r s s'"
  by (cases c)
     (auto simp: Let_def apart_log split: option.splits sum.splits prod.splits if_splits
           dest!: apart_run apart_call_resolve
           dest: outside_setConcreteType
           intro: apart_after_log)

lemma outside_construct:
  "construct rec b c slc s = Some (Inr (p, slc1), s') \<Longrightarrow> outside r slc \<Longrightarrow> outside r slc1"
  by (cases c)
     (auto simp: Let_def split: option.splits sum.splits prod.splits if_splits
           dest: outside_setConcreteType)

lemma apart_get:
  "get rec b slc s = Some (x, s') \<Longrightarrow> apart_calls r rec \<Longrightarrow> outside r slc \<Longrightarrow> apart r s s'"
  unfolding get_def
  by (auto split: option.splits sum.splits prod.splits getter.splits
           dest: apart_construct)

lemma outside_get:
  "get rec b slc s = Some (Inr (p, slc1), s') \<Longrightarrow> outside r slc \<Longrightarrow> outside r slc1"
  unfolding get_def
  by (auto split: option.splits sum.splits prod.splits getter.splits
           dest: outside_construct)

lemma apart_typed_tryResolve:
  "TypedServiceLocator_tryResolve rec m nm slc s = Some (x, s') \<Longrightarrow> apart_calls r rec \<Longrightarrow>
   outside r slc \<Longrightarrow> apart r s s'"
  by (auto simp: TypedServiceLocator_tryResolve_def split: option.splits dest: apart_get)

lemma outside_typed_tryResolve:
  "TypedServiceLocator_tryResolve rec m nm slc s = Some (Inr (p, slc1), s') \<Longrightarrow> outside r slc \<Longrightarrow>
   outside r slc1"
  by (auto simp: TypedServiceLocator_tryResolve_def split: option.splits dest: outside_get)

lemma apart_resolve:
  "ServiceLocator_resolve rec t chain slc s = Some (x, s') \<Longrightarrow> apart_calls r rec \<Longrightarrow>
   outside r slc \<Longrightarrow> apart r s s'"
proof (induction chain arbitrary: slc s)
  case Nil
  then show ?case by auto
next
  case (Cons l ps)
  then show ?case
    by (auto split: option.splits sum.splits prod.splits if_splits
             dest: apart_typed_tryResolve outside_typed_tryResolve intro: apart_trans)
qed

lemma apart_tryResolve:
  "ServiceLocator_tryResolve rec t chain slc s = Some (x, s') \<Longrightarrow> apart_calls r rec \<Longrightarrow>
   outside r slc \<Longrightarrow> apart r s s'"
proof (induction chain arbitrary: slc s)
  case Nil
  then show ?case by auto
next
  case (Cons l ps)
  then show ?case
    by (auto split: option.splits sum.splits prod.splits if_splits
             dest: apart_typed_tryResolve outside_typed_tryResolve intro: apart_trans)
qed

lemma apart_typed_visitAll:
  "TypedServiceLocator_visitAll rec t bs this all s = Some (x, s') \<Longrightarrow> apart_calls r rec \<Longrightarrow>
   apart r s s'"
proof (induction bs arbitrary: all s)
  case Nil
  then show ?case by auto
next
  case (Cons b bs)
  then show ?case
    by (auto simp: Let_def split: option.splits sum.splits prod.splits if_splits
             dest!: apart_get intro: apart_trans)
qed

lemma apart_visitAll:
  "ServiceLocator_visitAll rec t chain this all s = Some (x, s') \<Longrightarrow> apart_calls r rec \<Longrightarrow>
   apart r s s'"
proof (induction chain arbitrary: all s)
  case Nil
  then show ?case by auto
next
  case (Cons l ps)
  then show ?case
    by (auto split: option.splits sum.splits prod.splits if_splits
             dest!: apart_typed_visitAll intro: apart_trans)
qed

lemma drain_cases:
  assumes "drain rec r l i s = Some (x, s')"
  obtains (dangling) "deref (queues s) r \<noteq> None \<longrightarrow> deref (queues s) r = Some None" "x = Inl Dangling" "s' = s"
  | (finished) q where "deref (queues s) r = Some (Some q)" "length q \<le> i" "x = Inr ()" "s' = s"
  | (failed) q cap body e where "deref (queues s) r = Some (Some q)" "i < length q"
      "q ! i = Callback cap body"
      "run rec body (Root (length (queues s)) l) cap
         (s\<lparr>queues := queues s @ [None],
            trace := trace s @ [Run r (q ! i) (Root (length (queues s)) l)]\<rparr>) = Some (Inl e, s')"
      "x = Inl e"
  | (continued) q cap body s3 where "deref (queues s) r = Some (Some q)" "i < length q"
      "q ! i = Callback cap body"
      "run rec body (Root (length (queues s)) l) cap
         (s\<lparr>queues := queues s @ [None],
            trace := trace s @ [Run r (q ! i) (Root (length (queues s)) l)]\<rparr>) = Some (Inr (), s3)"
      "call_drain rec r l (Suc i) s3 = Some (x, s')"
  using assms unfolding drain_def new_root_def
  by (auto simp: Let_def split: option.splits sum.splits prod.splits if_splits callback.splits)

lemma apart_drain:
  assumes d: "drain rec r' l i s = Some (x, s')" and rec: "apart_calls r rec" and ne: "r' \<noteq> r"
  shows "apart r s s'"
proof (cases "unshared r s")
  case False
  then show ?thesis by (simp add: apart_def)
next
  case u: True
  then have r: "r < length (queues s)" by (simp add: unshared_def)
  let ?f = "length (queues s)"
  have step: "apart r s s3"
    if q: "deref (queues s) r' = Some (Some q)" "i < length q" "q ! i = Callback cap body"
      and run: "run rec body (Root ?f l) cap
         (s\<lparr>queues := queues s @ [None],
            trace := trace s @ [Run r' (q ! i) (Root ?f l)]\<rparr>) = Some (y, s3)"
    for q cap body y s3
  proof -
    have "r' < length (queues s)" "queues s ! r' = Some q"
      using q(1) by (auto simp: deref_def split: if_splits)
    moreover have "q ! i \<in> set q" using q(2) by simp
    ultimately have "outside r (captured (q ! i))" using u by (auto dest: unshared_nth)
    then have cap: "outside r cap" using q(3) by simp
    have "outside r (Root ?f l)" using r by simp
    from apart_run [OF run rec this cap] show ?thesis
      using ne by (auto intro: apart_after_root)
  qed
  from d show ?thesis
  proof (cases rule: drain_cases)
    case dangling
    then show ?thesis by simp
  next
    case (finished q)
    then show ?thesis by simp
  next
    case (failed q cap body e)
    then show ?thesis using step by blast
  next
    case (continued q cap body s3)
    then have "apart r s s3" using step by blast
    moreover have "apart r s3 s'" using continued(5) rec ne by (rule apart_call_drain)
    ultimately show ?thesis by (rule apart_trans)
  qed
qed

lemma apart_afterResolve:
  "afterResolve rec this s = Some (x, s') \<Longrightarrow> apart_calls r rec \<Longrightarrow> outside r this \<Longrightarrow>
   apart r s s'"
  by (cases this)
     (auto split: option.splits sum.splits prod.splits
           dest!: apart_drain intro!: apart_then_destroy)

lemma apart_Context_resolve:
  "Context_resolve rec this t nm s = Some (x, s') \<Longrightarrow> apart_calls r rec \<Longrightarrow> outside r this \<Longrightarrow>
   apart r s s'"
  unfolding Context_resolve_def
  by (auto simp: Let_def split: option.splits sum.splits prod.splits
           dest!: apart_resolve apart_afterResolve intro: apart_trans)

lemma apart_Context_tryResolve:
  "Context_tryResolve rec this t nm s = Some (x, s') \<Longrightarrow> apart_calls r rec \<Longrightarrow> outside r this \<Longrightarrow>
   apart r s s'"
  unfolding Context_tryResolve_def
  by (auto simp: Let_def split: option.splits sum.splits prod.splits
           dest!: apart_tryResolve apart_afterResolve intro: apart_trans)

lemma apart_Context_resolveAll:
  "Context_resolveAll rec this t s = Some (x, s') \<Longrightarrow> apart_calls r rec \<Longrightarrow> outside r this \<Longrightarrow>
   apart r s s'"
  unfolding Context_resolveAll_def
  by (auto simp: Let_def split: option.splits sum.splits prod.splits
           dest!: apart_visitAll apart_afterResolve intro: apart_trans)

lemma fresh_roots_Nil [simp]: "fresh_roots l lo hi []"
  by (simp add: fresh_roots_def)

lemma fresh_roots_Cons:
  assumes "fresh_roots l mid hi ctxs" and "lo \<le> f" and "f < mid" and "mid \<le> hi"
  shows "fresh_roots l lo hi (Root f l # ctxs)"
proof -
  from assms(1) obtain fs where fs: "ctxs = map (\<lambda>f. Root f l) fs" "sorted_wrt (<) fs"
    "\<forall>g \<in> set fs. mid \<le> g \<and> g < hi"
    unfolding fresh_roots_def by blast
  have "Root f l # ctxs = map (\<lambda>f. Root f l) (f # fs)" using fs(1) by simp
  moreover have "sorted_wrt (<) (f # fs)" using fs(2,3) assms(3) by auto
  moreover have "\<forall>g \<in> set (f # fs). lo \<le> g \<and> g < hi" using fs(3) assms(2,3,4) by auto
  ultimately show ?thesis unfolding fresh_roots_def by (intro exI [of _ "f # fs"] conjI)
qed

lemma drained_drain:
  assumes d: "drain rec r l i s = Some (Inr (), s')" and rec: "apart_calls r rec"
      and u: "unshared r s"
  shows "drained r l i s s'"
  using d
proof (cases rule: drain_cases)
  case dangling
  then show ?thesis by simp
next
  case (finished q)
  have "pending s r = q" using finished(1) by (simp add: pending_def)
  then have "trace s = trace s @ [] \<and> pending s r = pending s r @ enqueued r []
      \<and> map fst (runs r []) = drop i (pending s r)
      \<and> fresh_roots l (length (queues s)) (length (queues s)) (map snd (runs r []))"
    using finished(2) by simp
  then show ?thesis
    unfolding drained_def using u finished(4) by blast
next
  case (failed q cap body e)
  then show ?thesis by simp
next
  case (continued q cap body s3)
  let ?f = "length (queues s)"
  let ?ev = "Run r (q ! i) (Root ?f l)"
  let ?s2 = "s\<lparr>queues := queues s @ [None], trace := trace s @ [?ev]\<rparr>"
  have r: "r < ?f" and qr: "queues s ! r = Some q"
    using continued(1) by (auto simp: deref_def split: if_splits)
  have pq: "pending s r = q" using continued(1) by (simp add: pending_def)
  have "q ! i \<in> set q" using continued(2) by simp
  then have "outside r (captured (q ! i))" using u r qr by (auto dest: unshared_nth)
  then have cap: "outside r cap" using continued(3) by simp
  have giv: "outside r (Root ?f l)" using r by simp
  have u2: "unshared r ?s2"
    using u by (auto simp: unshared_def)
  have p2: "pending ?s2 r = q"
    using r qr by (simp add: pending_def deref_def nth_append)
  from apart_run [OF continued(4) rec giv cap] u2
  obtain evs1 where 1: "unshared r s3" "length (queues ?s2) \<le> length (queues s3)"
    "trace s3 = trace ?s2 @ evs1" "runs r evs1 = []"
    "pending s3 r = pending ?s2 r @ enqueued r evs1"
    unfolding apart_def by blast
  from drained_call_drain [OF continued(5) rec 1(1)]
  obtain evs2 where 2: "unshared r s'" "length (queues s3) \<le> length (queues s')"
    "trace s' = trace s3 @ evs2" "pending s' r = pending s3 r @ enqueued r evs2"
    "map fst (runs r evs2) = drop (Suc i) (pending s' r)"
    "fresh_roots l (length (queues s3)) (length (queues s')) (map snd (runs r evs2))"
    unfolding drained_def by blast
  let ?evs = "?ev # evs1 @ evs2"
  have len: "Suc ?f \<le> length (queues s3)" using 1(2) by simp
  have t: "trace s' = trace s @ ?evs" using 1(3) 2(3) by simp
  have p: "pending s' r = pending s r @ enqueued r ?evs"
    using 1(5) 2(4) p2 pq by simp
  have pi: "i < length (pending s' r)" "pending s' r ! i = q ! i"
    using p pq continued(2) by (simp_all add: nth_append)
  have rn: "runs r ?evs = (q ! i, Root ?f l) # runs r evs2" using 1(4) by simp
  have m: "map fst (runs r ?evs) = drop i (pending s' r)"
    using rn 2(5) Cons_nth_drop_Suc [OF pi(1)] pi(2) by simp
  have fr: "fresh_roots l ?f (length (queues s')) (map snd (runs r ?evs))"
    using rn fresh_roots_Cons [OF 2(6), of ?f ?f] len 2(2) by simp
  have "length (queues s) \<le> length (queues s')" using len 2(2) by simp
  then show ?thesis
    unfolding drained_def using 2(1) t p m fr by blast
qed

lemma apart_callsI:
  assumes "\<And>this t nm s x s'. call_resolve rec this t nm s = Some (x, s') \<Longrightarrow> outside r this \<Longrightarrow> apart r s s'"
      and "\<And>this t nm s x s'. call_tryResolve rec this t nm s = Some (x, s') \<Longrightarrow> outside r this \<Longrightarrow> apart r s s'"
      and "\<And>this t s x s'. call_resolveAll rec this t s = Some (x, s') \<Longrightarrow> outside r this \<Longrightarrow> apart r s s'"
      and "\<And>r' l k s x s'. call_drain rec r' l k s = Some (x, s') \<Longrightarrow> r' \<noteq> r \<Longrightarrow> apart r s s'"
      and "\<And>l k s s'. call_drain rec r l k s = Some (Inr (), s') \<Longrightarrow> unshared r s \<Longrightarrow> drained r l k s s'"
  shows "apart_calls r rec"
  unfolding apart_calls_def
  by (intro conjI allI impI; elim conjE; (rule assms; assumption))

lemma apart_calls_engine: "apart_calls r (engine n)"
proof (induction n)
  case 0
  show ?case by (simp add: apart_calls_def stuck_def)
next
  case (Suc n)
  show ?case
  proof (rule apart_callsI)
    show "apart r s s'"
      if "call_resolve (engine (Suc n)) this t nm s = Some (x, s')" "outside r this"
      for this t nm s x s'
      using that Suc by (simp add: apart_Context_resolve)
    show "apart r s s'"
      if "call_tryResolve (engine (Suc n)) this t nm s = Some (x, s')" "outside r this"
      for this t nm s x s'
      using that Suc by (simp add: apart_Context_tryResolve)
    show "apart r s s'"
      if "call_resolveAll (engine (Suc n)) this t s = Some (x, s')" "outside r this"
      for this t s x s'
      using that Suc by (simp add: apart_Context_resolveAll)
    show "apart r s s'"
      if "call_drain (engine (Suc n)) r' l k s = Some (x, s')" "r' \<noteq> r"
      for r' l k s x s'
      using that Suc by (simp add: apart_drain)
    show "drained r l k s s'"
      if "call_drain (engine (Suc n)) r l k s = Some (Inr (), s')" "unshared r s"
      for l k s s'
      using that Suc by (simp add: drained_drain)
  qed
qed

lemma fresh_roots_mono:
  "fresh_roots l lo hi ctxs \<Longrightarrow> lo' \<le> lo \<Longrightarrow> fresh_roots l lo' hi ctxs"
  unfolding fresh_roots_def by fastforce

lemma flushed_afterResolve:
  assumes a: "afterResolve rec (Root r l) s = Some (Inr (), s')" and rec: "apart_calls r rec"
      and u: "unshared r s"
  shows "flushed r l s s'"
proof -
  have r: "r < length (queues s)" using u by (simp add: unshared_def)
  show ?thesis
  proof (cases "queues s ! r")
    case None
    then have "s' = s" "pending s r = []" using a r by (simp_all add: pending_def)
    then have "trace s' = trace s @ [] \<and> map fst (runs r []) = pending s r @ enqueued r []
        \<and> fresh_roots l (length (queues s)) (length (queues s')) (map snd (runs r []))"
      by simp
    then show ?thesis
      unfolding flushed_def using None r \<open>s' = s\<close> by (metis deref_Some order_refl)
  next
    case (Some q)
    then obtain s1 where d: "drain rec r l 0 s = Some (Inr (), s1)"
      and s': "s' = s1\<lparr>queues := (queues s1)[r := None]\<rparr>"
      using a r by (auto split: option.splits sum.splits prod.splits)
    from drained_drain [OF d rec u]
    obtain evs where 1: "length (queues s) \<le> length (queues s1)" "trace s1 = trace s @ evs"
      "pending s1 r = pending s r @ enqueued r evs" "map fst (runs r evs) = drop 0 (pending s1 r)"
      "fresh_roots l (length (queues s)) (length (queues s1)) (map snd (runs r evs))"
      unfolding drained_def by blast
    have "trace s' = trace s @ evs \<and> map fst (runs r evs) = pending s r @ enqueued r evs
        \<and> fresh_roots l (length (queues s)) (length (queues s')) (map snd (runs r evs))"
      using 1 s' by simp
    moreover have "deref (queues s') r = Some None" "length (queues s) \<le> length (queues s')"
      using s' r 1(1) by simp_all
    ultimately show ?thesis unfolding flushed_def by blast
  qed
qed

lemma flushed_after:
  assumes a: "apart r s s1" and u: "unshared r s" and f: "flushed r l s1 s'"
  shows "flushed r l s s'"
proof -
  from a u obtain evs1 where 1: "unshared r s1" "length (queues s) \<le> length (queues s1)"
    "trace s1 = trace s @ evs1" "runs r evs1 = []" "pending s1 r = pending s r @ enqueued r evs1"
    unfolding apart_def by blast
  from f obtain evs2 where 2: "deref (queues s') r = Some None"
    "length (queues s1) \<le> length (queues s')" "trace s' = trace s1 @ evs2"
    "map fst (runs r evs2) = pending s1 r @ enqueued r evs2"
    "fresh_roots l (length (queues s1)) (length (queues s')) (map snd (runs r evs2))"
    unfolding flushed_def by blast
  have "trace s' = trace s @ (evs1 @ evs2)
      \<and> map fst (runs r (evs1 @ evs2)) = pending s r @ enqueued r (evs1 @ evs2)
      \<and> fresh_roots l (length (queues s)) (length (queues s')) (map snd (runs r (evs1 @ evs2)))"
    using 1 2 fresh_roots_mono [OF 2(5) 1(2)] by simp
  then show ?thesis
    unfolding flushed_def using 2(1,2) 1(2) by (meson le_trans)
qed

lemma Context_resolve_success:
  "Context_resolve rec this t nm s = Some (Inr p, s') \<Longrightarrow>
   \<exists>chain s1. ServiceLocator_resolve rec t chain (Child this t nm None) s = Some (Inr p, s1)
      \<and> afterResolve rec this s1 = Some (Inr (), s')"
  unfolding Context_resolve_def Let_def
  by (simp split: option.splits sum.splits prod.splits) blast

lemma Context_tryResolve_success:
  "Context_tryResolve rec this t nm s = Some (Inr p, s') \<Longrightarrow>
   \<exists>chain s1. ServiceLocator_tryResolve rec t chain (Child this t nm None) s = Some (Inr p, s1)
      \<and> afterResolve rec this s1 = Some (Inr (), s')"
  unfolding Context_tryResolve_def Let_def
  by (simp split: option.splits sum.splits prod.splits) blast

lemma Context_resolveAll_success:
  "Context_resolveAll rec this t s = Some (Inr ps, s') \<Longrightarrow>
   \<exists>chain s1. ServiceLocator_visitAll rec t chain this [] s = Some (Inr ps, s1)
      \<and> afterResolve rec this s1 = Some (Inr (), s')"
  unfolding Context_resolveAll_def Let_def
  by (simp split: option.splits sum.splits prod.splits) blast

lemma flushed_Context_resolve:
  assumes "Context_resolve rec (Root r l) t nm s = Some (Inr p, s')" and "apart_calls r rec"
      and "unshared r s"
  shows "flushed r l s s'"
proof -
  from assms(1) obtain chain s1 where
    1: "ServiceLocator_resolve rec t chain (Child (Root r l) t nm None) s = Some (Inr p, s1)"
    and 2: "afterResolve rec (Root r l) s1 = Some (Inr (), s')"
    using Context_resolve_success by blast
  have a: "apart r s s1" using 1 assms(2) by (rule apart_resolve) simp
  then have "unshared r s1" using assms(3) by (simp add: apart_def)
  with 2 assms(2) have "flushed r l s1 s'" by (intro flushed_afterResolve)
  with a assms(3) show ?thesis by (rule flushed_after)
qed

lemma flushed_Context_tryResolve:
  assumes "Context_tryResolve rec (Root r l) t nm s = Some (Inr p, s')" and "apart_calls r rec"
      and "unshared r s"
  shows "flushed r l s s'"
proof -
  from assms(1) obtain chain s1 where
    1: "ServiceLocator_tryResolve rec t chain (Child (Root r l) t nm None) s = Some (Inr p, s1)"
    and 2: "afterResolve rec (Root r l) s1 = Some (Inr (), s')"
    using Context_tryResolve_success by blast
  have a: "apart r s s1" using 1 assms(2) by (rule apart_tryResolve) simp
  then have "unshared r s1" using assms(3) by (simp add: apart_def)
  with 2 assms(2) have "flushed r l s1 s'" by (intro flushed_afterResolve)
  with a assms(3) show ?thesis by (rule flushed_after)
qed

lemma flushed_Context_resolveAll:
  assumes "Context_resolveAll rec (Root r l) t s = Some (Inr ps, s')" and "apart_calls r rec"
      and "unshared r s"
  shows "flushed r l s s'"
proof -
  from assms(1) obtain chain s1 where
    1: "ServiceLocator_visitAll rec t chain (Root r l) [] s = Some (Inr ps, s1)"
    and 2: "afterResolve rec (Root r l) s1 = Some (Inr (), s')"
    using Context_resolveAll_success by blast
  have a: "apart r s s1" using 1 assms(2) by (rule apart_visitAll)
  then have "unshared r s1" using assms(3) by (simp add: apart_def)
  with 2 assms(2) have "flushed r l s1 s'" by (intro flushed_afterResolve)
  with a assms(3) show ?thesis by (rule flushed_after)
qed

lemma flushed_new_events:
  assumes "flushed r l s s'"
  shows "deref (queues s') r = Some None
       \<and> map fst (runs r (new_events s s')) = pending s r @ enqueued r (new_events s s')
       \<and> fresh_roots l (length (queues s)) (length (queues s')) (map snd (runs r (new_events s s')))"
proof -
  from assms obtain evs where 2: "deref (queues s') r = Some None"
    "trace s' = trace s @ evs"
    "map fst (runs r evs) = pending s r @ enqueued r evs"
    "fresh_roots l (length (queues s)) (length (queues s')) (map snd (runs r evs))"
    unfolding flushed_def by blast
  have "new_events s s' = evs" using 2(2) by (simp add: new_events_def)
  then show ?thesis using 2 by simp
qed

lemma apart_new_events:
  assumes "apart r s s'" and "unshared r s"
  shows "runs r (new_events s s') = []
       \<and> pending s' r = pending s r @ enqueued r (new_events s s')"
proof -
  from assms obtain evs1 where 1: "trace s' = trace s @ evs1" "runs r evs1 = []"
    "pending s' r = pending s r @ enqueued r evs1"
    unfolding apart_def by blast
  have "new_events s s' = evs1" using 1(1) by (simp add: new_events_def)
  then show ?thesis using 1 by simp
qed

lemma sc_defer_eq: "sc_defer =
  \<lparr>locators =
     [\<lparr>parents = [], typed_locators = [(''ITest'', [([], 0)])], eagerBindings = [],
       root_context = 0\<rparr>],
   bindings =
     [\<lparr>iface = ''ITest'',
       fnGet = Creator (To ''TestA'' [AfterResolve Given [AfterResolve Captured []]]),
       fnCreate = To ''TestA'' [AfterResolve Given [AfterResolve Captured []]],
       singleton = Null, owner = 0\<rparr>],
   queues = [None], objects = [], trace = []\<rparr>"
  by (simp add: sc_defer_def setup_defs)

section \<open>The construction function of a singleton\<close>

lemma settled_sound: "settled_calls b rec \<Longrightarrow> sound rec"
  unfolding settled_calls_def sound_def settled_def by fast

lemma settled_weaken: "settled b True s s' \<Longrightarrow> settled b ok s s'"
  by (simp add: settled_def once_def)

lemma steady_new_events_trans:
  "steady s s1 \<Longrightarrow> steady s1 s2 \<Longrightarrow> new_events s s2 = new_events s s1 @ new_events s1 s2"
  by (auto simp: steady_def new_events_def)

lemma direct_not_initialized: "direct s b \<Longrightarrow> \<not> initialized s b"
  by (auto simp: direct_def initialized_def cached_def split: option.splits)

lemma steady_direct: "steady s s1 \<Longrightarrow> direct s b \<Longrightarrow> \<not> initialized s1 b \<Longrightarrow> direct s1 b"
  by (auto simp: direct_def initialized_def cached_def deref_def steady_def
                 unchanged_or_cached_def split: if_splits)

lemma once_initialized: "once b ok s s' \<Longrightarrow> initialized s b \<Longrightarrow> Construct b \<notin> set (new_events s s')"
  unfolding once_def by (erule conjE, erule mp)

lemma once_direct:
  "once b ok s s' \<Longrightarrow> ok \<Longrightarrow> direct s b \<Longrightarrow>
   count_list (new_events s s') (Construct b) = (if initialized s' b then 1 else 0)"
  unfolding once_def by (elim conjE, erule mp, rule conjI)

lemma onceI:
  assumes "initialized s b \<Longrightarrow> Construct b \<notin> set (new_events s s')"
      and "ok \<Longrightarrow> direct s b \<Longrightarrow>
           count_list (new_events s s') (Construct b) = (if initialized s' b then 1 else 0)"
  shows "once b ok s s'"
  unfolding once_def
proof (intro conjI impI)
  assume "initialized s b"
  then show "Construct b \<notin> set (new_events s s')" by (rule assms(1))
next
  assume "ok \<and> direct s b"
  then have "ok" "direct s b" by (rule conjunct1, rule conjunct2)
  then show "count_list (new_events s s') (Construct b) = (if initialized s' b then 1 else 0)"
    by (rule assms(2))
qed

lemma settled_trans:
  assumes a: "settled b True s s1" and c: "settled b ok s1 s2"
  shows "settled b ok s s2"
proof -
  have st1: "steady s s1" and st2: "steady s1 s2" using a c by (simp_all add: settled_def)
  have st: "steady s s2" using st1 st2 by (rule steady_trans)
  have ev: "new_events s s2 = new_events s s1 @ new_events s1 s2"
    using st1 st2 by (rule steady_new_events_trans)
  have o1: "once b True s s1" and o2: "once b ok s1 s2" using a c by (simp_all add: settled_def)
  have "once b ok s s2"
  proof (rule onceI)
    assume i: "initialized s b"
    have i1: "initialized s1 b" using st1 i by (rule steady_initialized)
    have "Construct b \<notin> set (new_events s s1)" using o1 i by (rule once_initialized)
    moreover have "Construct b \<notin> set (new_events s1 s2)" using o2 i1 by (rule once_initialized)
    ultimately show "Construct b \<notin> set (new_events s s2)" using ev by simp
  next
    assume ok: "ok" and d: "direct s b"
    have c1: "count_list (new_events s s1) (Construct b) = (if initialized s1 b then 1 else 0)"
      using o1 TrueI d by (rule once_direct)
    show "count_list (new_events s s2) (Construct b) = (if initialized s2 b then 1 else 0)"
    proof (cases "initialized s1 b")
      case True
      have "Construct b \<notin> set (new_events s1 s2)" using o2 True by (rule once_initialized)
      then have "count_list (new_events s1 s2) (Construct b) = 0" by (simp add: count_list_0_iff)
      moreover have "initialized s2 b" using st2 True by (rule steady_initialized)
      ultimately show ?thesis using ev c1 True by simp
    next
      case False
      have "direct s1 b" using st1 d False by (rule steady_direct)
      with o2 ok
      have "count_list (new_events s1 s2) (Construct b) = (if initialized s2 b then 1 else 0)"
        by (rule once_direct)
      then show ?thesis using ev c1 False by simp
    qed
  qed
  with st show ?thesis by (simp add: settled_def)
qed

lemma settled_quiet:
  assumes "steady s s'" and "bindings s' = bindings s" and "Construct b \<notin> set (new_events s s')"
  shows "settled b ok s s'"
proof -
  have i: "initialized s' b = initialized s b"
    using assms(2) by (simp add: initialized_def cached_def)
  have c: "count_list (new_events s s') (Construct b) = 0"
    using assms(3) by (simp add: count_list_0_iff)
  have "once b ok s s'"
  proof (rule onceI)
    show "Construct b \<notin> set (new_events s s')" by (rule assms(3))
  next
    assume "direct s b"
    then have "\<not> initialized s b" by (rule direct_not_initialized)
    then show "count_list (new_events s s') (Construct b) = (if initialized s' b then 1 else 0)"
      using i c by simp
  qed
  with assms(1) show ?thesis by (simp add: settled_def)
qed

lemma settled_refl [simp]: "settled b ok s s"
  by (rule settled_quiet) (simp_all add: new_events_def)

lemma settled_log:
  "Construct b \<notin> set evs \<Longrightarrow> settled b ok s (s\<lparr>trace := trace s @ evs\<rparr>)"
  by (rule settled_quiet) (simp_all add: new_events_def)

lemma settled_after_log:
  "settled b ok (s\<lparr>trace := trace s @ evs\<rparr>) s' \<Longrightarrow> Construct b \<notin> set evs \<Longrightarrow> settled b ok s s'"
  using settled_trans settled_log by blast

lemma settled_then_objects:
  "settled b ok s s1 \<Longrightarrow> settled b ok s (s1\<lparr>objects := objects s1 @ objs\<rparr>)"
  unfolding settled_def once_def
  by (auto simp: new_events_def initialized_def cached_def intro: steady_then_objects)

lemma settled_then_queues:
  "settled b ok s s1 \<Longrightarrow> settled b ok s (s1\<lparr>queues := (queues s1)[r := q]\<rparr>)"
  unfolding settled_def once_def
  by (auto simp: new_events_def initialized_def cached_def intro: steady_then_queues)

lemma settled_after_root:
  "settled b ok (s\<lparr>queues := queues s @ qs, trace := trace s @ evs\<rparr>) s' \<Longrightarrow>
   Construct b \<notin> set evs \<Longrightarrow> settled b ok s s'"
proof -
  assume a: "settled b ok (s\<lparr>queues := queues s @ qs, trace := trace s @ evs\<rparr>) s'"
     and n: "Construct b \<notin> set evs"
  have "settled b True s (s\<lparr>queues := queues s @ qs, trace := trace s @ evs\<rparr>)"
    using n by (intro settled_quiet) (simp_all add: new_events_def steady_def unchanged_or_cached_def)
  then show ?thesis using a by (rule settled_trans)
qed

lemma settled_Context_afterResolve:
  assumes "Context_afterResolve this cb s = (r, s')"
  shows "settled b ok s s'"
proof (rule settled_quiet)
  show "steady s s'" using assms by (rule steady_Context_afterResolve)
  show "bindings s' = bindings s"
    using assms by (auto simp: Context_afterResolve_def Let_def split: option.splits)
  show "Construct b \<notin> set (new_events s s')"
    using assms by (auto simp: Context_afterResolve_def Let_def new_events_def split: option.splits)
qed

lemma settled_call_resolve:
  "call_resolve rec this t nm s = Some (r, s') \<Longrightarrow> settled_calls b rec \<Longrightarrow>
   settled b (returned r) s s'"
  unfolding settled_calls_def by fast

lemma settled_call_tryResolve:
  "call_tryResolve rec this t nm s = Some (r, s') \<Longrightarrow> settled_calls b rec \<Longrightarrow>
   settled b (returned r) s s'"
  unfolding settled_calls_def by fast

lemma settled_call_resolveAll:
  "call_resolveAll rec this t s = Some (r, s') \<Longrightarrow> settled_calls b rec \<Longrightarrow>
   settled b (returned r) s s'"
  unfolding settled_calls_def by fast

lemma settled_call_drain:
  "call_drain rec r' l k s = Some (r, s') \<Longrightarrow> settled_calls b rec \<Longrightarrow>
   settled b (returned r) s s'"
  unfolding settled_calls_def by fast

lemmas settled_call = settled_call_resolve settled_call_tryResolve settled_call_resolveAll
  settled_call_drain

lemma settled_exec:
  "exec rec st given cap s = Some (r, s') \<Longrightarrow> settled_calls b rec \<Longrightarrow>
   settled b (returned r) s s'"
proof (cases st)
  case (Resolve tg t nm)
  assume "exec rec st given cap s = Some (r, s')" "settled_calls b rec"
  then show ?thesis using Resolve
    by (auto split: option.splits sum.splits prod.splits dest: settled_call_resolve)
next
  case (TryResolve tg t nm)
  assume "exec rec st given cap s = Some (r, s')" "settled_calls b rec"
  then show ?thesis using TryResolve
    by (auto split: option.splits sum.splits prod.splits dest: settled_call_tryResolve)
next
  case (ResolveAll tg t)
  assume "exec rec st given cap s = Some (r, s')" "settled_calls b rec"
  then show ?thesis using ResolveAll
    by (auto split: option.splits sum.splits prod.splits dest: settled_call_resolveAll)
next
  case (AfterResolve tg body)
  assume "exec rec st given cap s = Some (r, s')" "settled_calls b rec"
  then show ?thesis using AfterResolve
    by (auto intro: settled_Context_afterResolve)
next
  case Throw
  assume "exec rec st given cap s = Some (r, s')" "settled_calls b rec"
  then show ?thesis using Throw by auto
qed

lemma settled_run:
  "run rec body given cap s = Some (r, s') \<Longrightarrow> settled_calls b rec \<Longrightarrow>
   settled b (returned r) s s'"
proof (induction body arbitrary: s)
  case Nil
  then show ?case by auto
next
  case (Cons st body)
  show ?case
  proof (cases "exec rec st given cap s")
    case None
    then show ?thesis using Cons.prems by simp
  next
    case (Some x)
    obtain r1 s1 where x: "x = (r1, s1)" by (cases x)
    have 1: "settled b (returned r1) s s1"
      using Some x Cons.prems(2) by (intro settled_exec) simp_all
    show ?thesis
    proof (cases r1)
      case (Inl e)
      then show ?thesis using Cons.prems(1) Some x 1 by simp
    next
      case (Inr u)
      then have "run rec body given cap s1 = Some (r, s')" using Cons.prems(1) Some x by simp
      then have "settled b (returned r) s1 s'" using Cons.prems(2) by (rule Cons.IH)
      with 1 Inr show ?thesis by (auto intro: settled_trans)
    qed
  qed
qed

lemma construct_To:
  "construct rec b (To timpl body) slc s = construct rec b (ToFactory timpl body False) slc s"
  by (simp add: Let_def split: sum.splits option.splits prod.splits)

lemma settled_construct:
  assumes c: "construct rec b' c slc s = Some (r, s')" and sc: "settled_calls b rec"
      and ne: "b' \<noteq> b"
  shows "settled b (returned r) s s'"
proof -
  let ?s0 = "s\<lparr>trace := trace s @ [Construct b']\<rparr>"
  have l: "settled b ok s ?s0" for ok using ne by (intro settled_log) simp
  have body: "settled b (returned r1) s s1"
    if "run rec body slc1 slc1 ?s0 = Some (r1, s1)" for body slc1 r1 s1
    using settled_run [OF that sc] l [of True] by (rule settled_trans [rotated])
  have scripted: "settled b (returned r) s s'"
    if eq: "(case setConcreteType timpl slc of
               Inl e \<Rightarrow> Some (Inl e, ?s0)
             | Inr slc1 \<Rightarrow>
                 (case run rec body slc1 slc1 ?s0 of
                    None \<Rightarrow> None
                  | Some (Inl e, s1) \<Rightarrow> Some (Inl e, s1)
                  | Some (Inr u, s1) \<Rightarrow>
                      (if null then Some (Inr (Null, slc1), s1)
                       else Some (Inr (Ptr (length (objects s1)), slc1),
                                  s1\<lparr>objects := objects s1 @ [timpl]\<rparr>)))) = Some (r, s')"
    for timpl body null
  proof (cases "setConcreteType timpl slc")
    case (Inl e)
    then show ?thesis using eq l [of False] by auto
  next
    case (Inr slc1)
    show ?thesis
    proof (cases "run rec body slc1 slc1 ?s0")
      case None
      then show ?thesis using eq Inr by auto
    next
      case (Some x)
      obtain r1 s1 where x: "x = (r1, s1)" by (cases x)
      have 1: "settled b (returned r1) s s1" using Some x by (intro body) simp
      show ?thesis
      proof (cases r1)
        case (Inl e)
        then show ?thesis using eq Inr Some x 1 by auto
      next
        case r1: (Inr u)
        show ?thesis
        proof (cases null)
          case True
          then show ?thesis using eq Inr Some x r1 1 by auto
        next
          case False
          then have "r = Inr (Ptr (length (objects s1)), slc1)"
            "s' = s1\<lparr>objects := objects s1 @ [timpl]\<rparr>"
            using eq Inr Some x r1 by auto
          then show ?thesis using 1 r1 by (simp add: settled_then_objects)
        qed
      qed
    qed
  qed
  show ?thesis
  proof (cases c)
    case Unset
    then show ?thesis using c by simp
  next
    case (To timpl body)
    then have "construct rec b' (ToFactory timpl body False) slc s = Some (r, s')"
      using c by (simp only: construct_To)
    then show ?thesis
      using scripted [where timpl = timpl and body = body and null = False]
      by (simp only: construct.simps Let_def)
  next
    case (ToNoDependancy timpl)
    show ?thesis
    proof (cases "setConcreteType timpl slc")
      case (Inl e)
      then show ?thesis using c ToNoDependancy l [of False] by (auto simp: Let_def)
    next
      case (Inr slc1)
      then have "r = Inr (Ptr (length (objects ?s0)), slc1)"
        "s' = ?s0\<lparr>objects := objects ?s0 @ [timpl]\<rparr>"
        using c ToNoDependancy by (auto simp: Let_def)
      then show ?thesis using settled_then_objects [OF l [of True], of "[timpl]"] by simp
    qed
  next
    case (ToFactory timpl body null)
    then have "construct rec b' (ToFactory timpl body null) slc s = Some (r, s')"
      using c by simp
    then show ?thesis
      using scripted [where timpl = timpl and body = body and null = null]
      by (simp only: construct.simps Let_def)
  next
    case (Alias t named)
    let ?nm = "case named of None \<Rightarrow> getName slc | Some nm \<Rightarrow> nm"
    show ?thesis
    proof (cases "call_resolve rec slc t ?nm ?s0")
      case None
      then show ?thesis using c Alias by (auto simp: Let_def)
    next
      case (Some x)
      obtain r1 s1 where x: "x = (r1, s1)" by (cases x)
      have "settled b (returned r1) ?s0 s1"
        using Some x sc by (intro settled_call_resolve) simp_all
      with l [of True] have 1: "settled b (returned r1) s s1" by (rule settled_trans)
      show ?thesis
      proof (cases r1)
        case (Inl e)
        then show ?thesis using c Alias Some x 1 by (auto simp: Let_def)
      next
        case (Inr p)
        then show ?thesis using c Alias Some x 1 by (auto simp: Let_def)
      qed
    qed
  qed
qed

lemma settled_once: "settled b ok s s' \<Longrightarrow> once b ok s s'"
  by (simp add: settled_def)

lemma once_vacuous: "\<not> initialized s b \<Longrightarrow> (ok \<Longrightarrow> \<not> direct s b) \<Longrightarrow> once b ok s s'"
  by (rule onceI) simp_all

lemma once_upd_other:
  "b' \<noteq> b \<Longrightarrow> once b ok s (upd_binding b' f s1) = once b ok s s1"
  by (simp add: once_def upd_binding_def new_events_def initialized_def cached_def deref_def)

lemma no_dependencyD: "no_dependency c \<Longrightarrow> \<exists>timpl. c = ToNoDependancy timpl"
  by (cases c) simp_all

lemma once_first_direct:
  assumes bd: "deref (bindings s) b = Some bd" and f: "fnGet bd = SingletonFirst"
      and c: "construct rec b (fnCreate bd) slc s = Some (Inr (p, slc1), s1)"
  shows "once b ok s (upd_binding b (\<lambda>bd. bd\<lparr>singleton := p, fnGet := SingletonCached\<rparr>) s1)"
proof (rule onceI)
  assume "initialized s b"
  then show "Construct b \<notin> set (new_events s
      (upd_binding b (\<lambda>bd. bd\<lparr>singleton := p, fnGet := SingletonCached\<rparr>) s1))"
    using bd f by (simp add: initialized_def cached_def)
next
  assume "direct s b"
  then have "no_dependency (fnCreate bd)" using bd by (simp add: direct_def)
  then obtain timpl where t: "fnCreate bd = ToNoDependancy timpl" by (auto dest: no_dependencyD)
  have lb: "b < length (bindings s)" using bd by (auto simp: deref_def split: if_splits)
  have s1: "s1 = s\<lparr>trace := trace s @ [Construct b], objects := objects s @ [timpl]\<rparr>"
    using c t by (auto simp: Let_def split: sum.splits)
  show "count_list (new_events s
          (upd_binding b (\<lambda>bd. bd\<lparr>singleton := p, fnGet := SingletonCached\<rparr>) s1)) (Construct b)
        = (if initialized (upd_binding b (\<lambda>bd. bd\<lparr>singleton := p, fnGet := SingletonCached\<rparr>) s1) b
           then 1 else 0)"
    using lb by (simp add: s1 upd_binding_def new_events_def initialized_def cached_def)
qed

lemma settled_get:
  assumes g: "get rec b' slc s = Some (r, s')" and sc: "settled_calls b rec"
  shows "settled b (returned r) s s'"
proof -
  have st: "steady s s'" using g settled_sound [OF sc] by (rule steady_get)
  have "once b (returned r) s s'"
  proof (cases "deref (bindings s) b'")
    case None
    then have "s' = s" using g by (auto simp: get_def)
    then show ?thesis using settled_once [OF settled_refl] by simp
  next
    case (Some bd)
    show ?thesis
    proof (cases "fnGet bd")
      case (Creator c)
      then have c: "construct rec b' c slc s = Some (r, s')" using g Some by (simp add: get_def)
      show ?thesis
      proof (cases "b' = b")
        case True
        then show ?thesis
          using Some Creator
          by (intro once_vacuous) (simp_all add: initialized_def cached_def direct_def)
      next
        case False
        with c sc show ?thesis by (intro settled_once settled_construct)
      qed
    next
      case (Instance i)
      then have "s' = s" using g Some by (auto simp: get_def)
      then show ?thesis using settled_once [OF settled_refl] by simp
    next
      case SingletonCached
      then have "s' = s" using g Some by (auto simp: get_def)
      then show ?thesis using settled_once [OF settled_refl] by simp
    next
      case SingletonFirst
      show ?thesis
      proof (cases "construct rec b' (fnCreate bd) slc s")
        case None
        then show ?thesis using g Some SingletonFirst by (simp add: get_def)
      next
        case c: (Some x)
        obtain rc s1 where x: "x = (rc, s1)" by (cases x)
        show ?thesis
        proof (cases rc)
          case (Inl e)
          then have r: "r = Inl e" "s' = s1"
            using g Some SingletonFirst c x by (auto simp: get_def)
          show ?thesis
          proof (cases "b' = b")
            case True
            then show ?thesis
              using Some SingletonFirst r
              by (intro once_vacuous) (simp_all add: initialized_def cached_def)
          next
            case False
            have "settled b (returned rc) s s1"
              using c x sc False by (intro settled_construct) simp_all
            then show ?thesis using r Inl by (simp add: settled_def)
          qed
        next
          case (Inr y)
          obtain p slc1 where y: "y = (p, slc1)" by (cases y)
          have r: "r = Inr (p, slc1)"
            "s' = upd_binding b' (\<lambda>bd. bd\<lparr>singleton := p, fnGet := SingletonCached\<rparr>) s1"
            using g Some SingletonFirst c x Inr y by (auto simp: get_def)
          show ?thesis
          proof (cases "b' = b")
            case True
            have "construct rec b (fnCreate bd) slc s = Some (Inr (p, slc1), s1)"
              using c x Inr y True by simp
            moreover have "deref (bindings s) b = Some bd" using Some True by simp
            ultimately have "once b (returned r) s
                (upd_binding b (\<lambda>bd. bd\<lparr>singleton := p, fnGet := SingletonCached\<rparr>) s1)"
              using SingletonFirst by (intro once_first_direct)
            then show ?thesis using r True by simp
          next
            case False
            have "settled b (returned rc) s s1"
              using c x sc False by (intro settled_construct) simp_all
            then show ?thesis using r Inr False by (simp add: settled_def once_upd_other)
          qed
        qed
      qed
    qed
  qed
  with st show ?thesis by (simp add: settled_def)
qed

lemma settled_fail: "settled b True s s' \<Longrightarrow> settled b False s s'"
  by (rule settled_weaken)

lemma settled_get_ok:
  "get rec b' slc s = Some (Inr x, s') \<Longrightarrow> settled_calls b rec \<Longrightarrow> settled b True s s'"
  using settled_get [of rec b' slc s "Inr x" s' b] by simp

lemma settled_get_err:
  "get rec b' slc s = Some (Inl e, s') \<Longrightarrow> settled_calls b rec \<Longrightarrow> settled b False s s'"
  using settled_get [of rec b' slc s "Inl e" s' b] by simp

lemma settled_typed_tryResolve:
  "TypedServiceLocator_tryResolve rec m nm slc s = Some (r, s') \<Longrightarrow> settled_calls b rec \<Longrightarrow>
   settled b (returned r) s s'"
  by (auto simp: TypedServiceLocator_tryResolve_def split: option.splits dest: settled_get)

lemma settled_typed_ok:
  "TypedServiceLocator_tryResolve rec m nm slc s = Some (Inr x, s') \<Longrightarrow> settled_calls b rec \<Longrightarrow>
   settled b True s s'"
  using settled_typed_tryResolve [of rec m nm slc s "Inr x" s' b] by simp

lemma settled_typed_err:
  "TypedServiceLocator_tryResolve rec m nm slc s = Some (Inl e, s') \<Longrightarrow> settled_calls b rec \<Longrightarrow>
   settled b False s s'"
  using settled_typed_tryResolve [of rec m nm slc s "Inl e" s' b] by simp

lemma settled_resolve:
  "ServiceLocator_resolve rec t chain slc s = Some (r, s') \<Longrightarrow> settled_calls b rec \<Longrightarrow>
   settled b (returned r) s s'"
proof (induction chain arbitrary: slc s)
  case Nil
  then show ?case by auto
next
  case (Cons l ps)
  then show ?case
    by (auto split: option.splits sum.splits prod.splits if_splits
             dest!: settled_typed_ok settled_typed_err
             intro: settled_trans settled_fail)
qed

lemma settled_tryResolve:
  "ServiceLocator_tryResolve rec t chain slc s = Some (r, s') \<Longrightarrow> settled_calls b rec \<Longrightarrow>
   settled b (returned r) s s'"
proof (induction chain arbitrary: slc s)
  case Nil
  then show ?case by auto
next
  case (Cons l ps)
  then show ?case
    by (auto split: option.splits sum.splits prod.splits if_splits
             dest!: settled_typed_ok settled_typed_err
             intro: settled_trans settled_fail)
qed

lemma settled_typed_visitAll:
  "TypedServiceLocator_visitAll rec t bs this all s = Some (r, s') \<Longrightarrow> settled_calls b rec \<Longrightarrow>
   settled b (returned r) s s'"
proof (induction bs arbitrary: all s)
  case Nil
  then show ?case by auto
next
  case (Cons b' bs)
  then show ?case
    by (auto simp: Let_def split: option.splits sum.splits prod.splits if_splits
             dest!: settled_get_ok settled_get_err intro: settled_trans settled_fail)
qed

lemma settled_typed_visitAll_ok:
  "TypedServiceLocator_visitAll rec t bs this all s = Some (Inr x, s') \<Longrightarrow> settled_calls b rec \<Longrightarrow>
   settled b True s s'"
  using settled_typed_visitAll [of rec t bs this all s "Inr x" s' b] by simp

lemma settled_typed_visitAll_err:
  "TypedServiceLocator_visitAll rec t bs this all s = Some (Inl e, s') \<Longrightarrow> settled_calls b rec \<Longrightarrow>
   settled b False s s'"
  using settled_typed_visitAll [of rec t bs this all s "Inl e" s' b] by simp

lemma settled_visitAll:
  "ServiceLocator_visitAll rec t chain this all s = Some (r, s') \<Longrightarrow> settled_calls b rec \<Longrightarrow>
   settled b (returned r) s s'"
proof (induction chain arbitrary: all s)
  case Nil
  then show ?case by auto
next
  case (Cons l ps)
  then show ?case
    by (auto split: option.splits sum.splits prod.splits if_splits
             dest!: settled_typed_visitAll_ok settled_typed_visitAll_err
             intro: settled_trans settled_fail)
qed

lemma settled_run_ok:
  "run rec body given cap s = Some (Inr x, s') \<Longrightarrow> settled_calls b rec \<Longrightarrow> settled b True s s'"
  using settled_run [of rec body given cap s "Inr x" s' b] by simp

lemma settled_run_err:
  "run rec body given cap s = Some (Inl e, s') \<Longrightarrow> settled_calls b rec \<Longrightarrow> settled b False s s'"
  using settled_run [of rec body given cap s "Inl e" s' b] by simp

lemma settled_drain:
  assumes d: "drain rec r l i s = Some (x, s')" and sc: "settled_calls b rec"
  shows "settled b (returned x) s s'"
  using d
proof (cases rule: drain_cases)
  case dangling
  then show ?thesis by simp
next
  case (finished q)
  then show ?thesis by simp
next
  case (failed q cap body e)
  from settled_run_err [OF failed(4) sc] have "settled b False s s'"
    by (rule settled_after_root) simp
  then show ?thesis using failed(5) by simp
next
  case (continued q cap body s3)
  from settled_run_ok [OF continued(4) sc] have "settled b True s s3"
    by (rule settled_after_root) simp
  moreover have "settled b (returned x) s3 s'"
    using continued(5) sc by (rule settled_call_drain)
  ultimately show ?thesis by (rule settled_trans)
qed

lemma settled_afterResolve:
  assumes a: "afterResolve rec this s = Some (x, s')" and sc: "settled_calls b rec"
  shows "settled b (returned x) s s'"
proof (cases this)
  case (Child p t nm ct)
  then show ?thesis using a by auto
next
  case (Root r l)
  show ?thesis
  proof (cases "deref (queues s) r")
    case None
    then show ?thesis using a Root by auto
  next
    case (Some q)
    show ?thesis
    proof (cases q)
      case None
      then show ?thesis using a Root Some by auto
    next
      case q: (Some cs)
      show ?thesis
      proof (cases "drain rec r l 0 s")
        case None
        then show ?thesis using a Root Some q by simp
      next
        case d: (Some y)
        obtain r1 s1 where y: "y = (r1, s1)" by (cases y)
        have 1: "settled b (returned r1) s s1" using d y sc by (intro settled_drain) simp_all
        show ?thesis
        proof (cases r1)
          case (Inl e)
          then show ?thesis using a Root Some q d y 1 by auto
        next
          case (Inr u)
          then have "x = Inr ()" "s' = s1\<lparr>queues := (queues s1)[r := None]\<rparr>"
            using a Root Some q d y by auto
          then show ?thesis using 1 Inr by (simp add: settled_then_queues)
        qed
      qed
    qed
  qed
qed

lemma settled_afterResolve_ok:
  "afterResolve rec this s = Some (Inr x, s') \<Longrightarrow> settled_calls b rec \<Longrightarrow> settled b True s s'"
  using settled_afterResolve [of rec this s "Inr x" s' b] by simp

lemma settled_afterResolve_err:
  "afterResolve rec this s = Some (Inl e, s') \<Longrightarrow> settled_calls b rec \<Longrightarrow> settled b False s s'"
  using settled_afterResolve [of rec this s "Inl e" s' b] by simp

lemma settled_resolve_ok:
  "ServiceLocator_resolve rec t chain slc s = Some (Inr x, s') \<Longrightarrow> settled_calls b rec \<Longrightarrow>
   settled b True s s'"
  using settled_resolve [of rec t chain slc s "Inr x" s' b] by simp

lemma settled_resolve_err:
  "ServiceLocator_resolve rec t chain slc s = Some (Inl e, s') \<Longrightarrow> settled_calls b rec \<Longrightarrow>
   settled b False s s'"
  using settled_resolve [of rec t chain slc s "Inl e" s' b] by simp

lemma settled_tryResolve_ok:
  "ServiceLocator_tryResolve rec t chain slc s = Some (Inr x, s') \<Longrightarrow> settled_calls b rec \<Longrightarrow>
   settled b True s s'"
  using settled_tryResolve [of rec t chain slc s "Inr x" s' b] by simp

lemma settled_tryResolve_err:
  "ServiceLocator_tryResolve rec t chain slc s = Some (Inl e, s') \<Longrightarrow> settled_calls b rec \<Longrightarrow>
   settled b False s s'"
  using settled_tryResolve [of rec t chain slc s "Inl e" s' b] by simp

lemma settled_visitAll_ok:
  "ServiceLocator_visitAll rec t chain this all s = Some (Inr x, s') \<Longrightarrow> settled_calls b rec \<Longrightarrow>
   settled b True s s'"
  using settled_visitAll [of rec t chain this all s "Inr x" s' b] by simp

lemma settled_visitAll_err:
  "ServiceLocator_visitAll rec t chain this all s = Some (Inl e, s') \<Longrightarrow> settled_calls b rec \<Longrightarrow>
   settled b False s s'"
  using settled_visitAll [of rec t chain this all s "Inl e" s' b] by simp

lemma settled_Context_resolve:
  "Context_resolve rec this t nm s = Some (r, s') \<Longrightarrow> settled_calls b rec \<Longrightarrow>
   settled b (returned r) s s'"
  unfolding Context_resolve_def
  by (auto simp: Let_def split: option.splits sum.splits prod.splits
           dest!: settled_resolve_ok settled_resolve_err
                  settled_afterResolve_ok settled_afterResolve_err
           intro: settled_trans)

lemma settled_Context_tryResolve:
  "Context_tryResolve rec this t nm s = Some (r, s') \<Longrightarrow> settled_calls b rec \<Longrightarrow>
   settled b (returned r) s s'"
  unfolding Context_tryResolve_def
  by (auto simp: Let_def split: option.splits sum.splits prod.splits
           dest!: settled_tryResolve_ok settled_tryResolve_err
                  settled_afterResolve_ok settled_afterResolve_err
           intro: settled_trans)

lemma settled_Context_resolveAll:
  "Context_resolveAll rec this t s = Some (r, s') \<Longrightarrow> settled_calls b rec \<Longrightarrow>
   settled b (returned r) s s'"
  unfolding Context_resolveAll_def
  by (auto simp: Let_def split: option.splits sum.splits prod.splits
           dest!: settled_visitAll_ok settled_visitAll_err
                  settled_afterResolve_ok settled_afterResolve_err
           intro: settled_trans)

lemma settled_callsI:
  assumes "\<And>this t nm s r s'. call_resolve rec this t nm s = Some (r, s') \<Longrightarrow> settled b (returned r) s s'"
      and "\<And>this t nm s r s'. call_tryResolve rec this t nm s = Some (r, s') \<Longrightarrow> settled b (returned r) s s'"
      and "\<And>this t s r s'. call_resolveAll rec this t s = Some (r, s') \<Longrightarrow> settled b (returned r) s s'"
      and "\<And>r' l k s r s'. call_drain rec r' l k s = Some (r, s') \<Longrightarrow> settled b (returned r) s s'"
  shows "settled_calls b rec"
  unfolding settled_calls_def
  by (intro conjI allI impI; (rule assms; assumption))

lemma settled_calls_engine: "settled_calls b (engine n)"
proof (induction n)
  case 0
  show ?case by (simp add: settled_calls_def stuck_def)
next
  case (Suc n)
  show ?case
  proof (rule settled_callsI)
    show "settled b (returned r) s s'"
      if "call_resolve (engine (Suc n)) this t nm s = Some (r, s')" for this t nm s r s'
      using that Suc by (simp add: settled_Context_resolve)
    show "settled b (returned r) s s'"
      if "call_tryResolve (engine (Suc n)) this t nm s = Some (r, s')" for this t nm s r s'
      using that Suc by (simp add: settled_Context_tryResolve)
    show "settled b (returned r) s s'"
      if "call_resolveAll (engine (Suc n)) this t s = Some (r, s')" for this t s r s'
      using that Suc by (simp add: settled_Context_resolveAll)
    show "settled b (returned r) s s'"
      if "call_drain (engine (Suc n)) r' l k s = Some (r, s')" for r' l k s r s'
      using that Suc by (simp add: settled_drain)
  qed
qed

lemma settled_eagerBind:
  "eagerBind rec b' slc s = Some (r, s') \<Longrightarrow> settled_calls b rec \<Longrightarrow>
   settled b (returned r) s s'"
  by (auto simp: eagerBind_def split: option.splits sum.splits prod.splits
           dest!: settled_get_ok settled_get_err)

lemma settled_eagerBind_ok:
  "eagerBind rec b' slc s = Some (Inr x, s') \<Longrightarrow> settled_calls b rec \<Longrightarrow> settled b True s s'"
  using settled_eagerBind [of rec b' slc s "Inr x" s' b] by simp

lemma settled_eagerBind_err:
  "eagerBind rec b' slc s = Some (Inl e, s') \<Longrightarrow> settled_calls b rec \<Longrightarrow> settled b False s s'"
  using settled_eagerBind [of rec b' slc s "Inl e" s' b] by simp

lemma settled_eagerBindAll:
  "eagerBindAll rec bs slc s = Some (r, s') \<Longrightarrow> settled_calls b rec \<Longrightarrow>
   settled b (returned r) s s'"
proof (induction bs arbitrary: s)
  case Nil
  then show ?case by auto
next
  case (Cons a bs)
  then show ?case
    by (auto split: option.splits sum.splits prod.splits
             dest!: settled_eagerBind_ok settled_eagerBind_err intro: settled_trans)
qed

lemma once_locators [simp]: "once b ok s (s1\<lparr>locators := x\<rparr>) = once b ok s s1"
  by (simp add: once_def)

lemma once_getContext:
  assumes g: "getContext (engine n) l s = Some (r, s')"
  shows "once b (returned r) s s'"
proof (cases "deref (locators s) l")
  case None
  then have "s' = s" using g by (auto simp: getContext_def)
  then show ?thesis using settled_once [OF settled_refl] by simp
next
  case (Some loc)
  show ?thesis
  proof (cases "eagerBindings loc = []")
    case True
    then have "s' = s" using g Some by (auto simp: getContext_def)
    then show ?thesis using settled_once [OF settled_refl] by simp
  next
    case False
    show ?thesis
    proof (cases "eagerBindAll (engine n) (eagerBindings loc) (Root (root_context loc) l) s")
      case None
      then show ?thesis using g Some False by (simp add: getContext_def)
    next
      case e: (Some y)
      obtain r1 s1 where y: "y = (r1, s1)" by (cases y)
      have 1: "once b (returned r1) s s1"
        using e y settled_calls_engine by (intro settled_once settled_eagerBindAll) simp_all
      show ?thesis
      proof (cases r1)
        case (Inl e')
        then show ?thesis using g Some False e y 1 by (auto simp: getContext_def)
      next
        case (Inr u)
        then show ?thesis using g Some False e y 1 by (auto simp: getContext_def)
      qed
    qed
  qed
qed

lemma steady_getContext_bindings:
  assumes "getContext (engine n) l s = Some (r, s')"
  shows "\<exists>s1. steady s s1 \<and> bindings s' = bindings s1 \<and> trace s' = trace s1"
proof (cases "deref (locators s) l")
  case None
  then have "s' = s" using assms by (auto simp: getContext_def)
  then show ?thesis using steady_refl by blast
next
  case (Some loc)
  show ?thesis
  proof (cases "eagerBindings loc = []")
    case True
    then have "s' = s" using assms Some by (auto simp: getContext_def)
    then show ?thesis using steady_refl by blast
  next
    case False
    show ?thesis
    proof (cases "eagerBindAll (engine n) (eagerBindings loc) (Root (root_context loc) l) s")
      case None
      then show ?thesis using assms Some False by (simp add: getContext_def)
    next
      case e: (Some y)
      obtain r1 s1 where y: "y = (r1, s1)" by (cases y)
      have st: "steady s s1" using e y sound_engine by (intro steady_eagerBindAll) simp_all
      have "bindings s' = bindings s1 \<and> trace s' = trace s1"
        using assms Some False e y by (cases r1) (auto simp: getContext_def)
      with st show ?thesis by blast
    qed
  qed
qed

lemma cached_getContext:
  assumes "getContext (engine n) l s = Some (r, s')" and "cached s b p"
  shows "cached s' b p"
proof -
  from steady_getContext_bindings [OF assms(1)] obtain s1 where
    "steady s s1" "bindings s' = bindings s1" by blast
  then show ?thesis using steady_cached [OF _ assms(2)] by (simp add: cached_def)
qed

lemma sc_reenter_eq: "sc_reenter =
  \<lparr>locators =
    [\<lparr>parents = [],
      typed_locators = [(''ITest'', [(''X'', 0)]), (''IOther'', [([], 2), (''X'', 1)])],
      eagerBindings = [], root_context = 0\<rparr>],
   bindings =
    [\<lparr>iface = ''ITest'', fnGet = SingletonFirst, fnCreate = Alias ''IOther'' None,
      singleton = Null, owner = 0\<rparr>,
     \<lparr>iface = ''IOther'', fnGet = Creator (To ''B'' [ResolveAll Given ''ITest'']),
      fnCreate = To ''B'' [ResolveAll Given ''ITest''], singleton = Null, owner = 0\<rparr>,
     \<lparr>iface = ''IOther'', fnGet = Creator (ToNoDependancy ''C''),
      fnCreate = ToNoDependancy ''C'', singleton = Null, owner = 0\<rparr>],
   queues = [None], objects = [], trace = []\<rparr>"
  by (simp add: sc_reenter_def setup_defs)

lemma sc_reenter_throw_eq: "sc_reenter_throw =
  \<lparr>locators =
    [\<lparr>parents = [],
      typed_locators = [(''ITest'', [(''X'', 0)]), (''IOther'', [([], 2), (''X'', 1)])],
      eagerBindings = [], root_context = 0\<rparr>],
   bindings =
    [\<lparr>iface = ''ITest'', fnGet = SingletonFirst, fnCreate = Alias ''IOther'' None,
      singleton = Null, owner = 0\<rparr>,
     \<lparr>iface = ''IOther'', fnGet = Creator (To ''B'' [ResolveAll Given ''ITest'', Throw]),
      fnCreate = To ''B'' [ResolveAll Given ''ITest'', Throw], singleton = Null, owner = 0\<rparr>,
     \<lparr>iface = ''IOther'', fnGet = Creator (ToNoDependancy ''C''),
      fnCreate = ToNoDependancy ''C'', singleton = Null, owner = 0\<rparr>],
   queues = [None], objects = [], trace = []\<rparr>"
  by (simp add: sc_reenter_throw_def setup_defs)

lemma sc_eager_twice_eq: "sc_eager_twice =
  \<lparr>locators =
    [\<lparr>parents = [],
      typed_locators = [(''ITest'', [(''X'', 0)]), (''IOther'', [([], 1), (''X'', 2)])],
      eagerBindings = [0], root_context = 0\<rparr>],
   bindings =
    [\<lparr>iface = ''ITest'', fnGet = SingletonFirst, fnCreate = Alias ''IOther'' None,
      singleton = Null, owner = 0\<rparr>,
     \<lparr>iface = ''IOther'', fnGet = Creator (To ''B'' [Resolve Given ''ITest'' ''X'']),
      fnCreate = To ''B'' [Resolve Given ''ITest'' ''X''], singleton = Null, owner = 0\<rparr>,
     \<lparr>iface = ''IOther'', fnGet = Creator (ToNoDependancy ''C''),
      fnCreate = ToNoDependancy ''C'', singleton = Null, owner = 0\<rparr>],
   queues = [None], objects = [], trace = []\<rparr>"
  by (simp add: sc_eager_twice_def setup_defs)

lemma sc_eager_child_eq: "sc_eager_child =
  \<lparr>locators =
    [\<lparr>parents = [], typed_locators = [(''TestEager'', [([], 0)])], eagerBindings = [0],
      root_context = 0\<rparr>,
     \<lparr>parents = [0], typed_locators = [], eagerBindings = [], root_context = 1\<rparr>],
   bindings =
    [\<lparr>iface = ''TestEager'', fnGet = SingletonFirst, fnCreate = ToNoDependancy ''TestEager'',
      singleton = Null, owner = 0\<rparr>],
   queues = [None, None], objects = [], trace = []\<rparr>"
  by (simp add: sc_eager_child_def setup_defs)

section \<open>resolveAll as one pass over the bindings\<close>

lemma collected_simps [simp]:
  "collected acc None = None"
  "collected acc (Some (Inl e, s1)) = Some (Inl e, s1)"
  "collected acc (Some (Inr ps, s1)) = Some (Inr (acc @ ps), s1)"
  by (simp_all add: collected_def)

lemma collected_Nil [simp]: "collected [] res = res"
  by (auto simp: collected_def split: option.splits sum.splits prod.splits)

lemma collected_collected [simp]: "collected acc (collected acc' res) = collected (acc @ acc') res"
  by (auto simp: collected_def split: option.splits sum.splits prod.splits)

lemma typed_visitAll_get_each:
  "TypedServiceLocator_visitAll rec t bs this acc s = collected acc (get_each rec this t bs s)"
proof (induction bs arbitrary: acc s)
  case Nil
  show ?case by simp
next
  case (Cons b bs)
  show ?case
  proof (cases "checkRecursiveResolve (Child this t [] None) this")
    case (Inl e)
    then show ?thesis by (simp add: Let_def)
  next
    case (Inr u)
    show ?thesis
    proof (cases "get rec b (Child this t [] None) s")
      case None
      then show ?thesis using Inr by (simp add: Let_def)
    next
      case (Some x)
      obtain r1 s1 where x: "x = (r1, s1)" by (cases x)
      show ?thesis
      proof (cases r1)
        case (Inl e)
        then show ?thesis using Inr Some x by (simp add: Let_def)
      next
        case r: (Inr y)
        obtain p slc1 where y: "y = (p, slc1)" by (cases y)
        have "TypedServiceLocator_visitAll rec t (b # bs) this acc s
                = collected (acc @ [p]) (get_each rec this t bs s1)"
          using Inr Some x r y Cons.IH [of "acc @ [p]" s1] by (simp add: Let_def)
        moreover have "get_each rec this t (b # bs) s = collected [p] (get_each rec this t bs s1)"
          using Inr Some x r y
          by (auto simp: collected_def split: option.splits sum.splits prod.splits)
        ultimately show ?thesis by simp
      qed
    qed
  qed
qed

lemma get_each_append:
  "get_each rec this t (bs @ cs) s = next_each rec this t cs (get_each rec this t bs s)"
proof (induction bs arbitrary: s)
  case Nil
  show ?case by (simp add: next_each_def)
next
  case (Cons b bs)
  show ?case
    using Cons.IH
    by (auto simp: next_each_def collected_def split: option.splits sum.splits prod.splits)
qed

lemma steady_get_each:
  "get_each rec this t bs s = Some (r, s') \<Longrightarrow> sound rec \<Longrightarrow> steady s s'"
proof (induction bs arbitrary: s r)
  case Nil
  then show ?case by auto
next
  case (Cons b bs)
  then show ?case
    by (auto split: option.splits sum.splits prod.splits
             dest!: steady_get intro: steady_trans)
qed

lemma get_each_length:
  "get_each rec this t bs s = Some (Inr ps, s') \<Longrightarrow> length ps = length bs"
proof (induction bs arbitrary: s ps)
  case Nil
  then show ?case by auto
next
  case (Cons b bs)
  then show ?case
    by (auto split: option.splits sum.splits prod.splits)
qed

lemma flat_simps [simp]:
  "flat s t [] = []"
  "flat s t (l # ps) =
     (case getTypedServiceLocator s l t of None \<Rightarrow> [] | Some m \<Rightarrow> map snd m) @ flat s t ps"
  by (simp_all add: flat_def)

lemma flat_steady: "steady s s1 \<Longrightarrow> flat s1 t chain = flat s t chain"
  by (simp add: flat_def getTypedServiceLocator_def steady_def)

lemma visitAll_get_each:
  assumes "sound rec" and "chain \<noteq> []"
  shows "ServiceLocator_visitAll rec t chain this acc s
           = collected acc (get_each rec this t (flat s t chain) s)"
  using assms(2)
proof (induction chain arbitrary: acc s)
  case Nil
  then show ?case by simp
next
  case (Cons l ps)
  show ?case
  proof (cases "getTypedServiceLocator s l t")
    case None
    show ?thesis
    proof (cases "ps = []")
      case True
      then show ?thesis using None by simp
    next
      case False
      then show ?thesis using None Cons.IH [OF False, of acc s] by simp
    qed
  next
    case (Some m)
    let ?bs = "map snd m"
    have f: "flat s t (l # ps) = ?bs @ flat s t ps" using Some by simp
    show ?thesis
    proof (cases "get_each rec this t ?bs s")
      case None
      then show ?thesis
        using Some by (simp add: f get_each_append typed_visitAll_get_each next_each_def)
    next
      case g: (Some x)
      obtain r1 s1 where x: "x = (r1, s1)" by (cases x)
      have st: "steady s s1" using g x assms(1) by (intro steady_get_each) simp_all
      show ?thesis
      proof (cases r1)
        case (Inl e)
        then show ?thesis
          using Some g x by (simp add: f get_each_append typed_visitAll_get_each next_each_def)
      next
        case (Inr qs)
        show ?thesis
        proof (cases "ps = []")
          case True
          then show ?thesis
            using Some g x Inr
            by (simp add: f get_each_append typed_visitAll_get_each next_each_def)
        next
          case False
          have "ServiceLocator_visitAll rec t ps this (acc @ qs) s1
                  = collected (acc @ qs) (get_each rec this t (flat s t ps) s1)"
            using Cons.IH [OF False, of "acc @ qs" s1] flat_steady [OF st] by simp
          then show ?thesis
            using Some g x Inr False
            by (simp add: f get_each_append typed_visitAll_get_each next_each_def)
        qed
      qed
    qed
  qed
qed

lemma flat_ordered: "ordered s \<Longrightarrow> flat s t chain = enumerated s t chain"
  unfolding flat_def by (rule enumerated_ordered)

section \<open>Claims\<close>

subsection \<open>C8: duplicate bindings\<close>

text \<open>
  C8. On an existing locator, \<open>bind\<close> throws DuplicateBinding exactly when the locator's own
  registry already holds a binding for the interface and the name, and it throws nothing
  else. What the parent holds plays no part: a bind of a free pair succeeds, registers the
  new binding (so that the same bind throws from then on), and a bind of any pair in a
  locator just made by \<open>enter\<close> succeeds whatever the parent has registered.
\<close>

theorem bind_duplicate_binding:
  assumes "l < length (locators s)"
  shows "((fst (bind l t nm s) = Inl (DuplicateBinding t nm)) = (own_binding s l t nm \<noteq> None))
       \<and> ((\<exists>e. fst (bind l t nm s) = Inl e) = (own_binding s l t nm \<noteq> None))
       \<and> (own_binding s l t nm = None \<longrightarrow>
            fst (bind l t nm s) = Inr (length (bindings s))
            \<and> own_binding (snd (bind l t nm s)) l t nm = Some (length (bindings s))
            \<and> fst (bind l t nm (snd (bind l t nm s))) = Inl (DuplicateBinding t nm))
       \<and> fst (enter l s) = Inr (length (locators s))
       \<and> fst (bind (length (locators s)) t nm (snd (enter l s))) = Inr (length (bindings s))"
proof (intro conjI impI)
  show "(fst (bind l t nm s) = Inl (DuplicateBinding t nm)) = (own_binding s l t nm \<noteq> None)"
    using assms by (rule bind_fails_iff(2))
  show "(\<exists>e. fst (bind l t nm s) = Inl e) = (own_binding s l t nm \<noteq> None)"
    using assms by (rule bind_fails_iff(1))
  show "fst (enter l s) = Inr (length (locators s))"
    using assms by (simp add: enter_def new_root_def)
  have "length (locators s) < length (locators (snd (enter l s)))"
    and "own_binding (snd (enter l s)) (length (locators s)) t nm = None"
    and "bindings (snd (enter l s)) = bindings s"
    using assms
    by (simp_all add: enter_def new_root_def own_binding_def getTypedServiceLocator_def nth_append)
  then show "fst (bind (length (locators s)) t nm (snd (enter l s))) = Inr (length (bindings s))"
    using bind_registers(1) by metis
next
  assume free: "own_binding s l t nm = None"
  show "fst (bind l t nm s) = Inr (length (bindings s))"
    using assms free by (rule bind_registers(1))
  show reg: "own_binding (snd (bind l t nm s)) l t nm = Some (length (bindings s))"
    using assms free by (rule bind_registers(2))
  have "l < length (locators (snd (bind l t nm s)))"
    using assms by (auto simp: bind_def Let_def split: option.splits)
  then show "fst (bind l t nm (snd (bind l t nm s))) = Inl (DuplicateBinding t nm)"
    using reg bind_fails_iff(2) by simp
qed

theorem bind_duplicate_binding_witness:
  "0 < length (locators sc_nested)
   \<and> own_binding sc_nested 0 ''ITest'' [] = Some 0
   \<and> fst (bind 0 ''ITest'' [] sc_nested) = Inl (DuplicateBinding ''ITest'' [])
   \<and> own_binding sc_nested 0 ''ITest'' ''X'' = None
   \<and> fst (bind 0 ''ITest'' ''X'' sc_nested) = Inr 2
   \<and> fst (bind 0 ''ITest'' ''X'' (snd (bind 0 ''ITest'' ''X'' sc_nested)))
        = Inl (DuplicateBinding ''ITest'' ''X'')
   \<and> fst (enter 0 sc_nested) = Inr 3
   \<and> fst (bind 3 ''ITest'' [] (snd (enter 0 sc_nested))) = Inr 2"
proof -
  have l: "0 < length (locators sc_nested)" by (simp add: sc_nested_eq)
  have own: "own_binding sc_nested 0 ''ITest'' [] = Some 0"
    and free: "own_binding sc_nested 0 ''ITest'' ''X'' = None"
    by (simp_all add: sc_nested_eq run_defs)
  have n: "length (bindings sc_nested) = 2" "length (locators sc_nested) = 3"
    by (simp_all add: sc_nested_eq)
  show ?thesis
    using bind_duplicate_binding [OF l, of "''ITest''" "[]"]
          bind_duplicate_binding [OF l, of "''ITest''" "''X''"] l own free n
    by simp
qed

subsection \<open>C6: canResolve\<close>

text \<open>
  C6. \<open>canResolve\<close> misses a binding of an ancestor when the locator asked has a typed
  locator for the interface: the root binds \<open>ITest\<close> under \<open>"Y"\<close>, the child binds \<open>ITest\<close>
  under \<open>"X"\<close>; asked through the child for \<open>ITest\<close> under \<open>"Y"\<close>, \<open>canResolve\<close> is false,
  although the root holds that binding and \<open>resolve\<close> through the same Context returns its
  instance.
\<close>

theorem canResolve_stops_at_first_typed_locator:
  "lock sc_can 1 = Some [1, 0]
   \<and> own_binding sc_can 0 ''ITest'' ''Y'' = Some 0
   \<and> Context_canResolve sc_can (Root 1 1) ''ITest'' ''Y'' = Inr False
   \<and> Context_resolve stuck (Root 1 1) ''ITest'' ''Y'' sc_can
       = Some (Inr (Ptr 0), sc_can\<lparr>objects := [''TestA''], trace := [Construct 0]\<rparr>)"
  by (simp add: sc_can_eq run_defs)

subsection \<open>C5: the order of resolveAll\<close>

text \<open>
  C5, as stated, fails: \<open>ITest\<close> is bound under \<open>"B"\<close> to \<open>TestB\<close> first (binding 0) and under
  \<open>"A"\<close> to \<open>TestA\<close> second (binding 1); \<open>resolveAll\<close> constructs binding 1 before binding 0
  and returns the \<open>TestA\<close> object first.
\<close>

theorem resolveAll_registration_order_counterexample:
  "fst (bind 0 ''ITest'' ''B'' (snd (create init))) = Inr 0
   \<and> fst (bind 0 ''ITest'' ''A''
         (to 0 (ToNoDependancy ''TestB'') (snd (bind 0 ''ITest'' ''B'' (snd (create init)))))) = Inr 1
   \<and> Context_resolveAll stuck (Root 0 0) ''ITest'' sc_order
       = Some (Inr [Ptr 0, Ptr 1],
               sc_order\<lparr>objects := [''TestA'', ''TestB''], trace := [Construct 1, Construct 0]\<rparr>)"
  by (simp add: sc_order_eq run_defs) (simp add: setup_defs)

text \<open>
  C5, amended. In a state whose name maps are in ascending order of names (which the empty
  state has and \<open>create\<close>, \<open>enter\<close> and \<open>bind\<close> keep, in whatever order names are
  registered), \<open>resolveAll\<close> is one pass of gets, each
  with a new child Context of name \<open>""\<close>, over the bindings of the interface along the
  whole chain, nearest locator first, each locator's bindings in ascending order of their
  names; it returns the instances in that order, one for each binding, and then runs the
  after-resolve step.
\<close>

theorem resolveAll_in_name_order:
  "(ordered s \<and> lock s (sl_of this) = Some chain \<longrightarrow>
      Context_resolveAll (engine n) this t s =
        (case get_each (engine n) this t (enumerated s t chain) s of
           None \<Rightarrow> None
         | Some (Inl e, s1) \<Rightarrow> Some (Inl e, s1)
         | Some (Inr all, s1) \<Rightarrow>
             (case afterResolve (engine n) this s1 of
                None \<Rightarrow> None
              | Some (Inl e, s2) \<Rightarrow> Some (Inl e, s2)
              | Some (Inr u, s2) \<Rightarrow> Some (Inr all, s2))))
   \<and> (ordered s \<and> lock s (sl_of this) = Some chain
        \<and> Context_resolveAll (engine n) this t s = Some (Inr all, s')
      \<longrightarrow> length all = length (enumerated s t chain))
   \<and> ordered init
   \<and> (ordered s \<longrightarrow>
        ordered (snd (create s)) \<and> ordered (snd (enter l' s)) \<and> ordered (snd (bind l' t' nm' s)))"
proof -
  have eq: "Context_resolveAll (engine n) this t s =
        (case get_each (engine n) this t (enumerated s t chain) s of
           None \<Rightarrow> None
         | Some (Inl e, s1) \<Rightarrow> Some (Inl e, s1)
         | Some (Inr all, s1) \<Rightarrow>
             (case afterResolve (engine n) this s1 of
                None \<Rightarrow> None
              | Some (Inl e, s2) \<Rightarrow> Some (Inl e, s2)
              | Some (Inr u, s2) \<Rightarrow> Some (Inr all, s2)))"
    if o: "ordered s" and lk: "lock s (sl_of this) = Some chain" for chain
  proof -
    have ne: "chain \<noteq> []" using lk by (auto simp: lock_def split: option.splits)
    have "ServiceLocator_visitAll (engine n) t chain this [] s
            = get_each (engine n) this t (enumerated s t chain) s"
      using visitAll_get_each [OF sound_engine ne, of n t this "[]" s] flat_ordered [OF o]
      by simp
    then show ?thesis using lk by (simp add: Context_resolveAll_def)
  qed
  have len: "length all = length (enumerated s t chain)"
    if o: "ordered s" and lk: "lock s (sl_of this) = Some chain"
      and r: "Context_resolveAll (engine n) this t s = Some (Inr all, s')"
  proof -
    from r obtain s1 where "get_each (engine n) this t (enumerated s t chain) s = Some (Inr all, s1)"
      unfolding eq [OF o lk]
      by (simp split: option.splits sum.splits prod.splits)
    then show ?thesis by (rule get_each_length)
  qed
  show ?thesis
    using eq len ordered_init ordered_create ordered_enter ordered_bind by blast
qed

theorem resolveAll_in_name_order_witness:
  "ordered sc_order
   \<and> lock sc_order 0 = Some [0]
   \<and> own_binding sc_order 0 ''ITest'' ''B'' = Some 0
   \<and> own_binding sc_order 0 ''ITest'' ''A'' = Some 1
   \<and> enumerated sc_order ''ITest'' [0] = [1, 0]
   \<and> get_each (engine 0) (Root 0 0) ''ITest'' [1, 0] sc_order
        = Some (Inr [Ptr 0, Ptr 1],
                sc_order\<lparr>objects := [''TestA'', ''TestB''], trace := [Construct 1, Construct 0]\<rparr>)
   \<and> Context_resolveAll (engine 0) (Root 0 0) ''ITest'' sc_order
        = Some (Inr [Ptr 0, Ptr 1],
                sc_order\<lparr>objects := [''TestA'', ''TestB''], trace := [Construct 1, Construct 0]\<rparr>)"
proof -
  let ?fin = "sc_order\<lparr>objects := [''TestA'', ''TestB''], trace := [Construct 1, Construct 0]\<rparr>"
  have o: "ordered sc_order"
    by (simp add: ordered_def sc_order_eq)
  have lk: "lock sc_order (sl_of (Root 0 0)) = Some [0]"
    by (simp add: sc_order_eq run_defs)
  have en: "enumerated sc_order ''ITest'' [0] = [1, 0]"
    using enumerated_ordered [OF o, of "''ITest''" "[0]", symmetric]
    by (simp add: sc_order_eq run_defs)
  have own: "own_binding sc_order 0 ''ITest'' ''B'' = Some 0"
            "own_binding sc_order 0 ''ITest'' ''A'' = Some 1"
    by (simp_all add: sc_order_eq run_defs)
  have ge: "get_each (engine 0) (Root 0 0) ''ITest'' [1, 0] sc_order = Some (Inr [Ptr 0, Ptr 1], ?fin)"
    by (simp add: sc_order_eq run_defs typeid_void_def)
  have ar: "afterResolve (engine 0) (Root 0 0) ?fin = Some (Inr (), ?fin)"
    by (simp add: sc_order_eq)
  have "Context_resolveAll (engine 0) (Root 0 0) ''ITest'' sc_order = Some (Inr [Ptr 0, Ptr 1], ?fin)"
    using resolveAll_in_name_order [where s = sc_order and this = "Root 0 0" and chain = "[0]"
            and n = 0 and t = "''ITest''", THEN conjunct1, rule_format, OF conjI, OF o lk]
          en ge ar
    by simp
  then show ?thesis
    using o lk own en ge by simp
qed


subsection \<open>C2: recursive resolve\<close>

text \<open>
  C2. The check that \<open>resolve\<close> and \<open>tryResolve\<close> make on the new Context throws
  RecursiveResolve exactly when \<open>this\<close> or one of its ancestors has the same interface and
  the same name. When it does, the call returns that error with the state untouched,
  whatever the re-entrant calls would do: no construction function has run. And when the
  re-entrant calls (the nested resolutions started by client code) raise no
  RecursiveResolve of their own, the call fails with RecursiveResolve exactly in that case;
  in particular a new Context with an interface of an ancestor but another name passes.
\<close>

theorem recursive_resolve_iff_conflict:
  "((checkRecursiveResolve (Child this t nm None) this
      = Inl (RecursiveResolve (getResolvePath (Child this t nm None)))) = conflicts this t nm)
   \<and> (conflicts this t nm \<longrightarrow>
        Context_resolve rec this t nm s
          = Some (Inl (RecursiveResolve (getResolvePath (Child this t nm None))), s)
      \<and> Context_tryResolve rec this t nm s
          = Some (Inl (RecursiveResolve (getResolvePath (Child this t nm None))), s))
   \<and> (quiet rec \<longrightarrow>
        ((\<exists>e s'. Context_resolve rec this t nm s = Some (Inl e, s') \<and> is_cycle e)
          = conflicts this t nm)
      \<and> ((\<exists>e s'. Context_tryResolve rec this t nm s = Some (Inl e, s') \<and> is_cycle e)
          = conflicts this t nm))"
proof (intro conjI impI)
  show "(checkRecursiveResolve (Child this t nm None) this
      = Inl (RecursiveResolve (getResolvePath (Child this t nm None)))) = conflicts this t nm"
    by (simp add: check_cases del: getResolvePath.simps)
next
  assume c: "conflicts this t nm"
  then show "Context_resolve rec this t nm s
          = Some (Inl (RecursiveResolve (getResolvePath (Child this t nm None))), s)"
    by (simp add: Context_resolve_def Let_def check_cases del: getResolvePath.simps)
  from c show "Context_tryResolve rec this t nm s
          = Some (Inl (RecursiveResolve (getResolvePath (Child this t nm None))), s)"
    by (simp add: Context_tryResolve_def Let_def check_cases del: getResolvePath.simps)
next
  assume q: "quiet rec"
  show "(\<exists>e s'. Context_resolve rec this t nm s = Some (Inl e, s') \<and> is_cycle e)
          = conflicts this t nm"
  proof (cases "conflicts this t nm")
    case True
    then show ?thesis
      by (simp add: Context_resolve_def Let_def check_cases del: getResolvePath.simps)
  next
    case False
    then show ?thesis
      using q
      by (auto simp: Context_resolve_def Let_def check_cases
               split: option.splits sum.splits prod.splits
               dest: quiet_resolve quiet_afterResolve)
  qed
  show "(\<exists>e s'. Context_tryResolve rec this t nm s = Some (Inl e, s') \<and> is_cycle e)
          = conflicts this t nm"
  proof (cases "conflicts this t nm")
    case True
    then show ?thesis
      by (simp add: Context_tryResolve_def Let_def check_cases del: getResolvePath.simps)
  next
    case False
    then show ?thesis
      using q
      by (auto simp: Context_tryResolve_def Let_def check_cases
               split: option.splits sum.splits prod.splits
               dest: quiet_tryResolve quiet_afterResolve)
  qed
qed

theorem recursive_resolve_iff_conflict_witness:
  "conflicts (Child (Root 0 0) ''B'' [] (Some ''BImpl'')) ''B'' []
   \<and> Context_resolve stuck (Child (Root 0 0) ''B'' [] (Some ''BImpl'')) ''B'' []
        (sc_cycle\<lparr>trace := [Construct 2]\<rparr>)
       = Some (Inl (RecursiveResolve [(''B'', [], Some ''BImpl''), (''B'', [], None)]),
               sc_cycle\<lparr>trace := [Construct 2]\<rparr>)
   \<and> Context_resolve (engine (Suc 0)) (Root 0 0) ''B'' [] sc_cycle
       = Some (Inl (RecursiveResolve [(''B'', [], Some ''BImpl''), (''B'', [], None)]),
               sc_cycle\<lparr>trace := [Construct 2]\<rparr>)
   \<and> quiet stuck
   \<and> \<not> conflicts (Child (Root 0 0) ''A'' ''x'' (Some ''AImpl'')) ''A'' ''y''
   \<and> \<not> (\<exists>e s'. Context_resolve stuck (Child (Root 0 0) ''A'' ''x'' (Some ''AImpl'')) ''A'' ''y''
                 (sc_cycle\<lparr>trace := [Construct 0]\<rparr>) = Some (Inl e, s') \<and> is_cycle e)
   \<and> Context_resolve (engine (Suc 0)) (Root 0 0) ''A'' ''x'' sc_cycle
       = Some (Inr (Ptr 1),
               sc_cycle\<lparr>objects := [''AImpl'', ''AImpl''], trace := [Construct 0, Construct 1]\<rparr>)"
proof -
  let ?b = "Child (Root 0 0) ''B'' [] (Some ''BImpl'')"
  let ?a = "Child (Root 0 0) ''A'' ''x'' (Some ''AImpl'')"
  have c: "conflicts ?b ''B'' []"
    by (simp add: conflicts_def)
  have nc: "\<not> conflicts ?a ''A'' ''y''"
    by (simp add: conflicts_def typeid_void_def)
  have p: "getResolvePath (Child ?b ''B'' [] None) = [(''B'', [], Some ''BImpl''), (''B'', [], None)]"
    by simp
  have 1: "Context_resolve stuck ?b ''B'' [] (sc_cycle\<lparr>trace := [Construct 2]\<rparr>)
       = Some (Inl (RecursiveResolve [(''B'', [], Some ''BImpl''), (''B'', [], None)]),
               sc_cycle\<lparr>trace := [Construct 2]\<rparr>)"
    using recursive_resolve_iff_conflict
            [of ?b "''B''" "[]" stuck "sc_cycle\<lparr>trace := [Construct 2]\<rparr>",
             THEN conjunct2, THEN conjunct1, THEN mp, OF c, THEN conjunct1]
    unfolding p .
  have 2: "\<not> (\<exists>e s'. Context_resolve stuck ?a ''A'' ''y'' (sc_cycle\<lparr>trace := [Construct 0]\<rparr>)
                    = Some (Inl e, s') \<and> is_cycle e)"
    using recursive_resolve_iff_conflict
            [of ?a "''A''" "''y''" stuck "sc_cycle\<lparr>trace := [Construct 0]\<rparr>",
             THEN conjunct2, THEN conjunct2, THEN mp, OF quiet_stuck, THEN conjunct1] nc
    by blast
  have 3: "Context_resolve (engine (Suc 0)) (Root 0 0) ''B'' [] sc_cycle
       = Some (Inl (RecursiveResolve [(''B'', [], Some ''BImpl''), (''B'', [], None)]),
               sc_cycle\<lparr>trace := [Construct 2]\<rparr>)"
    by (simp add: sc_cycle_eq run_defs stuck_def)
  have 4: "Context_resolve (engine (Suc 0)) (Root 0 0) ''A'' ''x'' sc_cycle
       = Some (Inr (Ptr 1),
               sc_cycle\<lparr>objects := [''AImpl'', ''AImpl''], trace := [Construct 0, Construct 1]\<rparr>)"
    by (simp add: sc_cycle_eq run_defs stuck_def)
  show ?thesis
    using c nc 1 2 3 4 quiet_stuck by blast
qed

subsection \<open>C1: shadowing along the locator chain\<close>

text \<open>
  C1. When the nearest locator of the chain that holds a binding for the interface and the
  name is \<open>a\<close> (the locators before it hold none) and that binding yields an instance, then
  \<open>_resolve\<close> returns this instance and the state the binding left, whatever the locators
  after \<open>a\<close> hold: a child's own binding shadows its ancestors', and a locator without a
  binding of its own gets the nearest ancestor's. When no locator of the chain holds a
  binding, \<open>_resolve\<close> throws UnableToResolve. The same for \<open>Context::resolve\<close> when the
  check for recursion passes and the after-resolve step returns.
\<close>

theorem resolve_shadowing:
  "((\<forall>l \<in> set pre. own_binding s l t (getName slc) = None)
      \<and> own_binding s a t (getName slc) = Some b
      \<and> get rec b slc s = Some (Inr (Ptr p, slc1), s1)
     \<longrightarrow> ServiceLocator_resolve rec t (pre @ a # rest) slc s = Some (Inr (Ptr p), s1))
   \<and> (chain \<noteq> [] \<and> (\<forall>l \<in> set chain. own_binding s l t (getName slc) = None)
     \<longrightarrow> ServiceLocator_resolve rec t chain slc s
           = Some (Inl (UnableToResolve t (getResolvePath slc)), s))
   \<and> (lock s (sl_of this) = Some (pre @ a # rest) \<and> \<not> conflicts this t nm
      \<and> (\<forall>l \<in> set pre. own_binding s l t nm = None)
      \<and> own_binding s a t nm = Some b
      \<and> get rec b (Child this t nm None) s = Some (Inr (Ptr p, slc1), s1)
      \<and> afterResolve rec this s1 = Some (Inr (), s2)
     \<longrightarrow> Context_resolve rec this t nm s = Some (Inr (Ptr p), s2))
   \<and> (lock s (sl_of this) = Some chain \<and> \<not> conflicts this t nm
      \<and> (\<forall>l \<in> set chain. own_binding s l t nm = None)
     \<longrightarrow> Context_resolve rec this t nm s
           = Some (Inl (UnableToResolve t (getResolvePath (Child this t nm None))), s))"
proof (intro conjI impI)
  assume "(\<forall>l \<in> set pre. own_binding s l t (getName slc) = None)
      \<and> own_binding s a t (getName slc) = Some b
      \<and> get rec b slc s = Some (Inr (Ptr p, slc1), s1)"
  then show "ServiceLocator_resolve rec t (pre @ a # rest) slc s = Some (Inr (Ptr p), s1)"
    by (simp add: resolve_skips_unbound resolve_step del: ServiceLocator_resolve.simps)
next
  assume "chain \<noteq> [] \<and> (\<forall>l \<in> set chain. own_binding s l t (getName slc) = None)"
  then show "ServiceLocator_resolve rec t chain slc s
           = Some (Inl (UnableToResolve t (getResolvePath slc)), s)"
    using resolve_unbound [of chain s t slc rec] by (simp add: unable_def)
next
  assume h: "lock s (sl_of this) = Some (pre @ a # rest) \<and> \<not> conflicts this t nm
      \<and> (\<forall>l \<in> set pre. own_binding s l t nm = None)
      \<and> own_binding s a t nm = Some b
      \<and> get rec b (Child this t nm None) s = Some (Inr (Ptr p, slc1), s1)
      \<and> afterResolve rec this s1 = Some (Inr (), s2)"
  then have "ServiceLocator_resolve rec t (pre @ a # rest) (Child this t nm None) s
               = Some (Inr (Ptr p), s1)"
    by (simp add: resolve_skips_unbound resolve_step del: ServiceLocator_resolve.simps)
  with h show "Context_resolve rec this t nm s = Some (Inr (Ptr p), s2)"
    by (simp add: Context_resolve_def Let_def check_cases
             del: ServiceLocator_resolve.simps getResolvePath.simps)
next
  assume h: "lock s (sl_of this) = Some chain \<and> \<not> conflicts this t nm
      \<and> (\<forall>l \<in> set chain. own_binding s l t nm = None)"
  then have "chain \<noteq> []" by (auto simp: lock_def split: option.splits)
  with h have "ServiceLocator_resolve rec t chain (Child this t nm None) s
           = Some (Inl (unable t (Child this t nm None)), s)"
    by (intro resolve_unbound) simp_all
  with h show "Context_resolve rec this t nm s
           = Some (Inl (UnableToResolve t (getResolvePath (Child this t nm None))), s)"
    by (simp add: Context_resolve_def Let_def check_cases unable_def
             del: ServiceLocator_resolve.simps getResolvePath.simps)
qed

theorem resolve_shadowing_witness:
  "own_binding sc_nested 1 ''ITest'' [] = Some 1
   \<and> own_binding sc_nested 0 ''ITest'' [] = Some 0
   \<and> own_binding sc_nested 2 ''ITest'' [] = None
   \<and> Context_resolve stuck (Root 1 1) ''ITest'' [] sc_nested
        = Some (Inr (Ptr 0), sc_nested\<lparr>objects := [''TestB''], trace := [Construct 1]\<rparr>)
   \<and> Context_resolve stuck (Root 2 2) ''ITest'' [] sc_nested
        = Some (Inr (Ptr 0), sc_nested\<lparr>objects := [''TestA''], trace := [Construct 0]\<rparr>)
   \<and> Context_resolve stuck (Root 0 0) ''ITest'' [] sc_nested
        = Some (Inr (Ptr 0), sc_nested\<lparr>objects := [''TestA''], trace := [Construct 0]\<rparr>)
   \<and> Context_resolve stuck (Root 1 1) ''ITest'' ''X'' sc_nested
        = Some (Inl (UnableToResolve ''ITest'' [(''ITest'', ''X'', None)]), sc_nested)"
proof -
  let ?sB = "sc_nested\<lparr>objects := [''TestB''], trace := [Construct 1]\<rparr>"
  let ?sA = "sc_nested\<lparr>objects := [''TestA''], trace := [Construct 0]\<rparr>"
  have own: "own_binding sc_nested 1 ''ITest'' [] = Some 1"
            "own_binding sc_nested 0 ''ITest'' [] = Some 0"
            "own_binding sc_nested 2 ''ITest'' [] = None"
            "own_binding sc_nested 1 ''ITest'' ''X'' = None"
            "own_binding sc_nested 0 ''ITest'' ''X'' = None"
    by (simp_all add: sc_nested_eq run_defs)
  have lk: "lock sc_nested (sl_of (Root 1 1)) = Some ([] @ 1 # [0])"
           "lock sc_nested (sl_of (Root 2 2)) = Some ([2] @ 0 # [])"
           "lock sc_nested (sl_of (Root 0 0)) = Some ([] @ 0 # [])"
           "lock sc_nested (sl_of (Root 1 1)) = Some [1, 0]"
    by (simp_all add: sc_nested_eq run_defs)
  have nc: "\<not> conflicts (Root r l) ''ITest'' nm" for r l nm
    by (simp add: conflicts_def typeid_void_def)
  have g1: "get stuck 1 (Child (Root 1 1) ''ITest'' [] None) sc_nested
              = Some (Inr (Ptr 0, Child (Root 1 1) ''ITest'' [] (Some ''TestB'')), ?sB)"
    by (simp add: sc_nested_eq run_defs)
  have g0: "get stuck 0 (Child (Root r l) ''ITest'' [] None) sc_nested
              = Some (Inr (Ptr 0, Child (Root r l) ''ITest'' [] (Some ''TestA'')), ?sA)" for r l
    by (simp add: sc_nested_eq run_defs)
  have a1: "afterResolve stuck (Root 1 1) ?sB = Some (Inr (), ?sB)"
    and a2: "afterResolve stuck (Root 2 2) ?sA = Some (Inr (), ?sA)"
    and a0: "afterResolve stuck (Root 0 0) ?sA = Some (Inr (), ?sA)"
    by (simp_all add: sc_nested_eq)
  have 1: "Context_resolve stuck (Root 1 1) ''ITest'' [] sc_nested = Some (Inr (Ptr 0), ?sB)"
    using resolve_shadowing [THEN conjunct2, THEN conjunct2, THEN conjunct1, rule_format,
            of sc_nested "Root 1 1" "[]" 1 "[0]" "''ITest''" "[]" 1 stuck 0 _ ?sB ?sB]
          lk(1) nc own(1) g1 a1
    by simp
  have 2: "Context_resolve stuck (Root 2 2) ''ITest'' [] sc_nested = Some (Inr (Ptr 0), ?sA)"
    using resolve_shadowing [THEN conjunct2, THEN conjunct2, THEN conjunct1, rule_format,
            of sc_nested "Root 2 2" "[2]" 0 "[]" "''ITest''" "[]" 0 stuck 0 _ ?sA ?sA]
          lk(2) nc own(2,3) g0 a2
    by simp
  have 3: "Context_resolve stuck (Root 0 0) ''ITest'' [] sc_nested = Some (Inr (Ptr 0), ?sA)"
    using resolve_shadowing [THEN conjunct2, THEN conjunct2, THEN conjunct1, rule_format,
            of sc_nested "Root 0 0" "[]" 0 "[]" "''ITest''" "[]" 0 stuck 0 _ ?sA ?sA]
          lk(3) nc own(2) g0 a0
    by simp
  have 4: "Context_resolve stuck (Root 1 1) ''ITest'' ''X'' sc_nested
        = Some (Inl (UnableToResolve ''ITest'' [(''ITest'', ''X'', None)]), sc_nested)"
    using resolve_shadowing [THEN conjunct2, THEN conjunct2, THEN conjunct2, rule_format,
            of sc_nested "Root 1 1" "[1, 0]" "''ITest''" "''X''" stuck]
          lk(4) nc own(4,5)
    by simp
  show ?thesis
    using own(1,2,3) 1 2 3 4 by blast
qed

subsection \<open>C10: a null instance\<close>

text \<open>
  C10. When the binding found in a locator yields \<open>nullptr\<close>, \<open>_resolve\<close> and \<open>_tryResolve\<close>
  go on as they do when the locator has no binding, from the Context and the state the
  binding left: with a parent the same lookup is delegated to it, at the end of the chain
  \<open>_resolve\<close> throws UnableToResolve and \<open>_tryResolve\<close> returns \<open>nullptr\<close>. \<open>_resolve\<close> and
  \<open>Context::resolve\<close> never return \<open>nullptr\<close>.
\<close>

theorem null_instance_is_a_miss:
  "(own_binding s l t (getName slc) = Some b \<and> get rec b slc s = Some (Inr (Null, slc1), s1)
      \<longrightarrow> ServiceLocator_resolve rec t (l # ps) slc s
            = (if ps = [] then Some (Inl (UnableToResolve t (getResolvePath slc1)), s1)
               else ServiceLocator_resolve rec t ps slc1 s1)
        \<and> ServiceLocator_tryResolve rec t (l # ps) slc s
            = (if ps = [] then Some (Inr Null, s1)
               else ServiceLocator_tryResolve rec t ps slc1 s1))
   \<and> (own_binding s l t (getName slc) = None
      \<longrightarrow> ServiceLocator_resolve rec t (l # ps) slc s
            = (if ps = [] then Some (Inl (UnableToResolve t (getResolvePath slc)), s)
               else ServiceLocator_resolve rec t ps slc s)
        \<and> ServiceLocator_tryResolve rec t (l # ps) slc s
            = (if ps = [] then Some (Inr Null, s)
               else ServiceLocator_tryResolve rec t ps slc s))
   \<and> (\<forall>p s'. ServiceLocator_resolve rec t chain slc s = Some (Inr p, s') \<longrightarrow> p \<noteq> Null)
   \<and> (\<forall>p s'. Context_resolve rec this t nm s = Some (Inr p, s') \<longrightarrow> p \<noteq> Null)"
  by (auto simp add: resolve_step tryResolve_step unable_def Context_resolve_def Let_def
           simp del: ServiceLocator_resolve.simps ServiceLocator_tryResolve.simps
           split: option.splits sum.splits prod.splits
           dest: resolve_never_null)

theorem null_instance_is_a_miss_witness:
  "own_binding sc_null 1 ''ITest'' [] = Some 1
   \<and> get stuck 1 (Child (Root 1 1) ''ITest'' [] None) sc_null
        = Some (Inr (Null, Child (Root 1 1) ''ITest'' [] None), sc_null)
   \<and> own_binding sc_null 2 ''ITest'' [] = None
   \<and> ServiceLocator_resolve stuck ''ITest'' [1, 0] (Child (Root 1 1) ''ITest'' [] None) sc_null
        = ServiceLocator_resolve stuck ''ITest'' [0] (Child (Root 1 1) ''ITest'' [] None) sc_null
   \<and> ServiceLocator_resolve stuck ''ITest'' [2, 0] (Child (Root 1 1) ''ITest'' [] None) sc_null
        = ServiceLocator_resolve stuck ''ITest'' [0] (Child (Root 1 1) ''ITest'' [] None) sc_null
   \<and> ServiceLocator_tryResolve stuck ''ITest'' [1, 0] (Child (Root 1 1) ''ITest'' [] None) sc_null
        = ServiceLocator_tryResolve stuck ''ITest'' [0] (Child (Root 1 1) ''ITest'' [] None) sc_null
   \<and> ServiceLocator_resolve stuck ''ITest'' [1] (Child (Root 1 1) ''ITest'' [] None) sc_null
        = Some (Inl (UnableToResolve ''ITest'' [(''ITest'', [], None)]), sc_null)
   \<and> ServiceLocator_tryResolve stuck ''ITest'' [1] (Child (Root 1 1) ''ITest'' [] None) sc_null
        = Some (Inr Null, sc_null)
   \<and> Context_resolve stuck (Root 1 1) ''ITest'' [] sc_null
        = Some (Inr (Ptr 0), sc_null\<lparr>objects := [''TestA''], trace := [Construct 0]\<rparr>)
   \<and> Ptr 0 \<noteq> Null"
proof -
  let ?slc = "Child (Root 1 1) ''ITest'' [] None"
  have own: "own_binding sc_null 1 ''ITest'' (getName ?slc) = Some 1"
    and free: "own_binding sc_null 2 ''ITest'' (getName ?slc) = None"
    by (simp_all add: sc_null_eq run_defs)
  have g: "get stuck 1 ?slc sc_null = Some (Inr (Null, ?slc), sc_null)"
    by (simp add: sc_null_eq run_defs)
  note inst = null_instance_is_a_miss [where rec = stuck and s = sc_null and t = "''ITest''"
      and slc = "?slc" and this = "Root 1 1" and nm = "[]"]
  have 1: "ServiceLocator_resolve stuck ''ITest'' [1, 0] ?slc sc_null
             = ServiceLocator_resolve stuck ''ITest'' [0] ?slc sc_null"
    and 2: "ServiceLocator_tryResolve stuck ''ITest'' [1, 0] ?slc sc_null
             = ServiceLocator_tryResolve stuck ''ITest'' [0] ?slc sc_null"
    using inst [where l = 1 and ps = "[0]" and b = 1 and ?slc1.0 = "?slc" and ?s1.0 = sc_null,
               THEN conjunct1, rule_format] own g
    by simp_all
  have 3: "ServiceLocator_resolve stuck ''ITest'' [1] ?slc sc_null
        = Some (Inl (UnableToResolve ''ITest'' [(''ITest'', [], None)]), sc_null)"
    and 4: "ServiceLocator_tryResolve stuck ''ITest'' [1] ?slc sc_null = Some (Inr Null, sc_null)"
    using inst [where l = 1 and ps = "[]" and b = 1 and ?slc1.0 = "?slc" and ?s1.0 = sc_null,
               THEN conjunct1, rule_format] own g
    by simp_all
  have 5: "ServiceLocator_resolve stuck ''ITest'' [2, 0] ?slc sc_null
             = ServiceLocator_resolve stuck ''ITest'' [0] ?slc sc_null"
    using inst [where l = 2 and ps = "[0]", THEN conjunct2, THEN conjunct1, rule_format] free
    by simp
  have r: "Context_resolve stuck (Root 1 1) ''ITest'' [] sc_null
        = Some (Inr (Ptr 0), sc_null\<lparr>objects := [''TestA''], trace := [Construct 0]\<rparr>)"
    by (simp add: sc_null_eq run_defs)
  have 6: "Ptr 0 \<noteq> Null"
    using inst [THEN conjunct2, THEN conjunct2, THEN conjunct2, rule_format, OF r] .
  show ?thesis
    using own free g 1 2 3 4 5 6 r by simp
qed

subsection \<open>C7: tryResolve\<close>



subsection \<open>C3: the lifecycle of a singleton\<close>




subsection \<open>C9: eager bindings\<close>




subsection \<open>C4: the after-resolve list\<close>



end
